theory Spec2Isabelle
  imports Main "HOL-Library.Word"
begin

section \<open>Strings and values of the host language\<close>

text \<open>
  A JavaScript string is a sequence of 16-bit code units. The regular expression of
  \<open>extractWords\<close> has no \<open>u\<close> flag, so it reads the string code unit by code unit.
  String literals of the source are written \<open>js ''...''\<close>.
\<close>

type_synonym code_unit = "16 word"

type_synonym jsstring = "code_unit list"

definition js :: "string \<Rightarrow> jsstring" where
  "js s = map of_char s"

text \<open>
  The arguments are typed \<open>string\<close> in the source, but the code tests
  \<open>typeof input !== "string"\<close> itself and the tests pass \<open>null\<close> and
  \<open>undefined\<close>: an input is any value, of which only strings carry data here.
\<close>

datatype js_value = JString jsstring | JUndefined | JNull | JBoolean bool

definition is_string :: "js_value \<Rightarrow> bool" where
  "is_string v = (case v of JString _ \<Rightarrow> True | _ \<Rightarrow> False)"

subsection \<open>Character classes of the regular expression\<close>

definition is_lower :: "code_unit \<Rightarrow> bool" where
  "is_lower c = (0x61 \<le> c \<and> c \<le> 0x7A)"

definition is_upper :: "code_unit \<Rightarrow> bool" where
  "is_upper c = (0x41 \<le> c \<and> c \<le> 0x5A)"

definition is_digit :: "code_unit \<Rightarrow> bool" where
  "is_digit c = (0x30 \<le> c \<and> c \<le> 0x39)"

definition is_alpha :: "code_unit \<Rightarrow> bool" where
  "is_alpha c = (is_lower c \<or> is_upper c)"

definition is_alnum :: "code_unit \<Rightarrow> bool" where
  "is_alnum c = (is_lower c \<or> is_upper c \<or> is_digit c)"

subsection \<open>\<open>String.prototype.trim\<close>\<close>

text \<open>
  The code units that \<open>trim\<close> strips: WhiteSpace (TAB, VT, FF, SP, NBSP, ZWNBSP and
  the space separators U+1680, U+2000 to U+200A, U+202F, U+205F, U+3000) and
  LineTerminator (LF, CR, U+2028, U+2029).
\<close>

definition is_space :: "code_unit \<Rightarrow> bool" where
  "is_space c = (c \<in> {0x09, 0x0A, 0x0B, 0x0C, 0x0D, 0x20, 0xA0, 0x1680, 0x2028, 0x2029,
                       0x202F, 0x205F, 0x3000, 0xFEFF} \<or> (0x2000 \<le> c \<and> c \<le> 0x200A))"

definition trim :: "jsstring \<Rightarrow> jsstring" where
  "trim s = rev (dropWhile is_space (rev (dropWhile is_space s)))"

subsection \<open>\<open>String.prototype.split\<close> with the word-boundary expression\<close>

text \<open>
  The expression is
  \<^verbatim>\<open>[^a-zA-Z0-9]+|(?<=[a-z])(?=[A-Z])|(?<=[A-Z])(?=[A-Z][a-z])|(?<=[a-zA-Z])(?=[0-9])|(?<=[0-9])(?=[a-zA-Z])\<close>.
  \<open>split\<close> runs it sticky: a match must start at the index asked for. Each
  alternative gives the end index of its match at \<open>q\<close>, if it matches there.
\<close>

definition lookbehind :: "(code_unit \<Rightarrow> bool) \<Rightarrow> jsstring \<Rightarrow> nat \<Rightarrow> bool" where
  "lookbehind P S q = (0 < q \<and> q \<le> length S \<and> P (S ! (q - 1)))"

definition lookahead :: "(code_unit \<Rightarrow> bool) \<Rightarrow> jsstring \<Rightarrow> nat \<Rightarrow> bool" where
  "lookahead P S q = (q < length S \<and> P (S ! q))"

definition alt_separators :: "jsstring \<Rightarrow> nat \<Rightarrow> nat option" where
  \<comment> \<open>\<^verbatim>\<open>[^a-zA-Z0-9]+\<close>, greedy\<close>
  "alt_separators S q =
     (let n = length (takeWhile (\<lambda>c. \<not> is_alnum c) (drop q S))
      in if 0 < n then Some (q + n) else None)"

definition alt_camel :: "jsstring \<Rightarrow> nat \<Rightarrow> nat option" where
  \<comment> \<open>\<^verbatim>\<open>(?<=[a-z])(?=[A-Z])\<close>\<close>
  "alt_camel S q = (if lookbehind is_lower S q \<and> lookahead is_upper S q then Some q else None)"

definition alt_acronym :: "jsstring \<Rightarrow> nat \<Rightarrow> nat option" where
  \<comment> \<open>\<^verbatim>\<open>(?<=[A-Z])(?=[A-Z][a-z])\<close>\<close>
  "alt_acronym S q =
     (if lookbehind is_upper S q \<and> lookahead is_upper S q \<and> lookahead is_lower S (q + 1)
      then Some q else None)"

definition alt_letter_digit :: "jsstring \<Rightarrow> nat \<Rightarrow> nat option" where
  \<comment> \<open>\<^verbatim>\<open>(?<=[a-zA-Z])(?=[0-9])\<close>\<close>
  "alt_letter_digit S q =
     (if lookbehind is_alpha S q \<and> lookahead is_digit S q then Some q else None)"

definition alt_digit_letter :: "jsstring \<Rightarrow> nat \<Rightarrow> nat option" where
  \<comment> \<open>\<^verbatim>\<open>(?<=[0-9])(?=[a-zA-Z])\<close>\<close>
  "alt_digit_letter S q =
     (if lookbehind is_digit S q \<and> lookahead is_alpha S q then Some q else None)"

definition first_match :: "nat option list \<Rightarrow> nat option" where
  "first_match ms = (case filter (\<lambda>m. m \<noteq> None) ms of [] \<Rightarrow> None | m # _ \<Rightarrow> m)"

definition regexExec :: "jsstring \<Rightarrow> nat \<Rightarrow> nat option" where
  \<comment> \<open>the alternatives are tried from left to right\<close>
  "regexExec S q =
     first_match [alt_separators S q, alt_camel S q, alt_acronym S q,
                  alt_letter_digit S q, alt_digit_letter S q]"

text \<open>
  The loop of \<open>RegExp.prototype[Symbol.split]\<close> (ECMAScript, 22.2.6.14), without
  captures: \<open>p\<close> is the start of the piece being read, \<open>q\<close> the index tried next.
  A match that ends at \<open>p\<close> is skipped; otherwise the piece from \<open>p\<close> to \<open>q\<close> is
  emitted and reading goes on at the end of the match. The piece from \<open>p\<close> to the end
  of the string closes the array. The source passes no limit, so the array would be cut
  at \<open>2^32 - 1\<close> pieces only; that cut is not modelled.
\<close>

function split_loop :: "jsstring \<Rightarrow> nat \<Rightarrow> nat \<Rightarrow> jsstring list" where
  "split_loop S p q =
     (if q < length S then
        (case regexExec S q of
           None \<Rightarrow> split_loop S p (q + 1)
         | Some e0 \<Rightarrow>
             (let e = min e0 (length S)
              in if e = p then split_loop S p (q + 1)
                 else take (q - p) (drop p S) # split_loop S e e))
      else [drop p S])"
  by pat_completeness auto

lemma regexExec_ge: "regexExec S q = Some e \<Longrightarrow> q \<le> e"
  by (auto simp: regexExec_def first_match_def alt_separators_def alt_camel_def alt_acronym_def
      alt_letter_digit_def alt_digit_letter_def Let_def split: if_splits)

text \<open>
  An empty match at \<open>q \<noteq> p\<close> restarts the loop at \<open>p = q\<close> with the same \<open>q\<close>, so
  the distance to the end of the string alone does not decrease: the measure also counts
  whether a piece is open.
\<close>

termination split_loop
proof (relation "measure (\<lambda>(S, p, q). 2 * (length S - q) + (if p = q then 0 else 1))", goal_cases)
  case 1
  show ?case by simp
next
  case (2 S p q)
  then show ?case by auto
next
  case (3 S p q e0 e)
  then show ?case by auto
next
  case (4 S p q e0 e)
  then have "q \<le> e0" by (simp add: regexExec_ge)
  with 4 show ?case by (auto simp: min_def split: if_splits)
qed

declare split_loop.simps [simp del]

definition regex_split :: "jsstring \<Rightarrow> jsstring list" where
  \<comment> \<open>\<open>input.split(regex)\<close>; on the empty string the expression is tried once\<close>
  "regex_split S =
     (if length S = 0 then (if regexExec S 0 \<noteq> None then [] else [S])
      else split_loop S 0 0)"

section \<open>The word extractor\<close>

definition extractWords :: "js_value \<Rightarrow> jsstring list" where
  "extractWords input =
     (case input of
        JString s \<Rightarrow>
          if trim s = [] then []
          else filter (\<lambda>word. 0 < length (trim word)) (regex_split s)
      | _ \<Rightarrow> [])"

section \<open>The case converter\<close>

text \<open>
  \<open>toLowerCase\<close> and \<open>toUpperCase\<close> are modelled on the ASCII letters and leave every
  other code unit as it is. The converter applies them to extracted words and to words
  joined by a space only, which hold no code unit outside ASCII (\<open>extractWords_word\<close>
  below), so the Unicode case mappings of the host are never reached.
\<close>

definition lower_unit :: "code_unit \<Rightarrow> code_unit" where
  "lower_unit c = (if is_upper c then c + 0x20 else c)"

definition upper_unit :: "code_unit \<Rightarrow> code_unit" where
  "upper_unit c = (if is_lower c then c - 0x20 else c)"

definition toLowerCase :: "jsstring \<Rightarrow> jsstring" where
  "toLowerCase s = map lower_unit s"

definition toUpperCase :: "jsstring \<Rightarrow> jsstring" where
  "toUpperCase s = map upper_unit s"

definition capitalize :: "jsstring \<Rightarrow> jsstring" where
  \<comment> \<open>\<open>word.charAt(0).toUpperCase() + word.slice(1).toLowerCase()\<close>\<close>
  "capitalize word = toUpperCase (take 1 word) @ toLowerCase (drop 1 word)"

fun join :: "jsstring \<Rightarrow> jsstring list \<Rightarrow> jsstring" where
  "join sep [] = []"
| "join sep [w] = w"
| "join sep (w # ws) = w @ sep @ join sep ws"

datatype error = Error jsstring

text \<open>
  The case type is a string at run time (\<open>CaseType\<close> is a union of string literals, and
  the tests pass \<open>"invalid" as CaseType\<close>); the \<open>switch\<close> compares it with \<open>===\<close>.
  \<open>words[0]!\<close> is read after the check that \<open>words\<close> is not empty.
\<close>

definition convertCase :: "js_value \<Rightarrow> jsstring \<Rightarrow> error + jsstring" where
  "convertCase input caseType =
     (if \<not> is_string input then Inr []
      else
        let words = extractWords input in
        if length words = 0 then Inr []
        else if caseType = js ''lowercase'' then Inr (join (js '' '') (map toLowerCase words))
        else if caseType = js ''uppercase'' then Inr (join (js '' '') (map toUpperCase words))
        else if caseType = js ''sentence'' then
          (let sentence = join (js '' '') (map toLowerCase words) in Inr (capitalize sentence))
        else if caseType = js ''title'' then Inr (join (js '' '') (map capitalize words))
        else if caseType = js ''snake'' then Inr (join (js ''_'') (map toLowerCase words))
        else if caseType = js ''kebab'' then Inr (join (js ''-'') (map toLowerCase words))
        else if caseType = js ''camel'' then
          Inr (if length words = 1 then toLowerCase (words ! 0)
               else toLowerCase (words ! 0) @ join [] (map capitalize (drop 1 words)))
        else if caseType = js ''pascal'' then Inr (join [] (map capitalize words))
        else if caseType = js ''dot'' then Inr (join (js ''.'') (map toLowerCase words))
        else if caseType = js ''constant'' then Inr (join (js ''_'') (map toUpperCase words))
        else Inl (Error (js ''Unsupported case type: '' @ caseType)))"

text \<open>The ten values of the type \<open>CaseType\<close>.\<close>

definition CaseType :: "jsstring list" where
  "CaseType = map js [''lowercase'', ''uppercase'', ''sentence'', ''title'', ''snake'',
                      ''kebab'', ''camel'', ''pascal'', ''dot'', ''constant'']"

subsection \<open>The wrapper \<open>toCase\<close>\<close>

text \<open>
  An object of ten functions. The field \<open>constant\<close> of the source is written
  \<open>constant'\<close>: \<open>constant\<close> is a keyword here.
\<close>

record toCase_object =
  lower :: "js_value \<Rightarrow> error + jsstring"
  upper :: "js_value \<Rightarrow> error + jsstring"
  sentence :: "js_value \<Rightarrow> error + jsstring"
  title :: "js_value \<Rightarrow> error + jsstring"
  snake :: "js_value \<Rightarrow> error + jsstring"
  kebab :: "js_value \<Rightarrow> error + jsstring"
  camel :: "js_value \<Rightarrow> error + jsstring"
  pascal :: "js_value \<Rightarrow> error + jsstring"
  dot :: "js_value \<Rightarrow> error + jsstring"
  constant' :: "js_value \<Rightarrow> error + jsstring"

definition toCase :: toCase_object where
  "toCase =
     \<lparr> lower = (\<lambda>input. convertCase input (js ''lowercase'')),
       upper = (\<lambda>input. convertCase input (js ''uppercase'')),
       sentence = (\<lambda>input. convertCase input (js ''sentence'')),
       title = (\<lambda>input. convertCase input (js ''title'')),
       snake = (\<lambda>input. convertCase input (js ''snake'')),
       kebab = (\<lambda>input. convertCase input (js ''kebab'')),
       camel = (\<lambda>input. convertCase input (js ''camel'')),
       pascal = (\<lambda>input. convertCase input (js ''pascal'')),
       dot = (\<lambda>input. convertCase input (js ''dot'')),
       constant' = (\<lambda>input. convertCase input (js ''constant'')) \<rparr>"

section \<open>A one-pass reading of the split\<close>

text \<open>
  For the proofs, the loop is read as one pass over the code units: \<open>cur\<close> is the piece
  from \<open>p\<close> to \<open>q\<close> and the second argument is the string from \<open>q\<close> on. The four
  zero-width alternatives together are \<open>boundary\<close>, on the code unit before \<open>q\<close>, the
  one at \<open>q\<close> and those after it. \<open>split_loop_scan\<close> shows that the loop computes
  exactly this.
\<close>

definition boundary :: "code_unit \<Rightarrow> code_unit \<Rightarrow> jsstring \<Rightarrow> bool" where
  "boundary l c cs =
     ((is_lower l \<and> is_upper c) \<or>
      (is_upper l \<and> is_upper c \<and> (case cs of [] \<Rightarrow> False | d # _ \<Rightarrow> is_lower d)) \<or>
      (is_alpha l \<and> is_digit c) \<or>
      (is_digit l \<and> is_alpha c))"

function scan :: "jsstring \<Rightarrow> jsstring \<Rightarrow> jsstring list" where
  "scan cur [] = [cur]"
| "scan cur (c # cs) =
     (if \<not> is_alnum c then cur # scan [] (dropWhile (\<lambda>c. \<not> is_alnum c) cs)
      else if cur \<noteq> [] \<and> boundary (last cur) c cs then cur # scan [c] cs
      else scan (cur @ [c]) cs)"
  by pat_completeness auto

termination
  by (relation "measure (\<lambda>(cur, rest). length rest)")
     (auto simp: less_Suc_eq_le length_dropWhile_le)

declare scan.simps(2) [simp del]

section \<open>Notions used to state and prove the claims\<close>

text \<open>
  A word is homogeneous when it holds letters only or digits only.
\<close>

definition homogeneous :: "jsstring \<Rightarrow> bool" where
  "homogeneous w = (list_all is_alpha w \<or> list_all is_digit w)"

text \<open>
  \<open>weave gaps ws\<close> is the string that reads the first gap, the first word, the second
  gap, the second word and so on, up to the last gap: with one more gap than words it
  places the words in a string, from left to right, with the gaps between and around
  them. A gap is a possibly empty run of \<open>separators\<close>: code units that are neither
  ASCII letters nor ASCII digits.
\<close>

fun weave :: "jsstring list \<Rightarrow> jsstring list \<Rightarrow> jsstring" where
  "weave (g # gs) (w # ws) = g @ w @ weave gs ws"
| "weave gs [] = concat gs"
| "weave [] ws = concat ws"

definition separators :: "jsstring \<Rightarrow> bool" where
  "separators g = list_all (\<lambda>c. \<not> is_alnum c) g"

text \<open>
  A word is \<open>solid\<close> when it is not empty, holds letters and digits only, and none of
  the zero-width alternatives matches inside it: split on its own, between separators,
  it comes back whole.
\<close>

fun no_boundary :: "jsstring \<Rightarrow> bool" where
  "no_boundary (a # b # cs) = (\<not> boundary a b cs \<and> no_boundary (b # cs))"
| "no_boundary _ = True"

definition solid :: "jsstring \<Rightarrow> bool" where
  "solid w = (w \<noteq> [] \<and> list_all is_alnum w \<and> no_boundary w)"

text \<open>
  A capitalized word is an upper-case letter followed by one or more lower-case letters,
  as \<open>Request\<close> in \<open>HTTPRequest\<close>.
\<close>

definition capitalized :: "jsstring \<Rightarrow> bool" where
  "capitalized w = (case w of [] \<Rightarrow> False | c # l \<Rightarrow> is_upper c \<and> l \<noteq> [] \<and> list_all is_lower l)"

section \<open>The loop computes the one-pass reading\<close>

lemma class_disjoint:
  "is_lower c \<Longrightarrow> \<not> is_upper c" "is_lower c \<Longrightarrow> \<not> is_digit c" "is_upper c \<Longrightarrow> \<not> is_digit c"
  by (auto simp: is_lower_def is_upper_def is_digit_def word_le_nat_alt)

lemma regexExec_at:
  assumes "q < length S"
  shows "regexExec S q =
     (if \<not> is_alnum (S ! q) then Some (q + length (takeWhile (\<lambda>c. \<not> is_alnum c) (drop q S)))
      else if 0 < q \<and> boundary (S ! (q - 1)) (S ! q) (drop (Suc q) S) then Some q
      else None)"
proof -
  have d: "drop q S = S ! q # drop (Suc q) S"
    using assms by (simp add: Cons_nth_drop_Suc)
  have la: "lookahead P S q = P (S ! q)" for P
    using assms by (simp add: lookahead_def)
  have lb: "lookbehind P S q = (0 < q \<and> P (S ! (q - 1)))" for P
    using assms by (auto simp: lookbehind_def)
  have la1: "lookahead is_lower S (Suc q) = (case drop (Suc q) S of [] \<Rightarrow> False | d # _ \<Rightarrow> is_lower d)"
    by (cases "Suc q < length S") (auto simp: lookahead_def Cons_nth_drop_Suc[symmetric])
  show ?thesis
    by (auto simp: regexExec_def first_match_def alt_separators_def alt_camel_def alt_acronym_def
      alt_letter_digit_def alt_digit_letter_def Let_def d la lb la1 boundary_def is_alnum_def is_alpha_def
      class_disjoint)
qed

lemma drop_takeWhile_run: "drop (length (takeWhile P xs)) xs = dropWhile P xs"
  by (induction xs) auto

lemma split_loop_scan:
  "p \<le> q \<Longrightarrow> q \<le> length S \<Longrightarrow>
   split_loop S p q = scan (take (q - p) (drop p S)) (drop q S)"
proof (induction S p q rule: split_loop.induct)
  case (1 S p q)
  show ?case
  proof (cases "q < length S")
    case False
    with 1(4,5) show ?thesis by (simp add: split_loop.simps)
  next
    case lt: True
    define cur where "cur = take (q - p) (drop p S)"
    define c where "c = S ! q"
    define cs where "cs = drop (Suc q) S"
    have d: "drop q S = c # cs"
      using lt by (simp add: Cons_nth_drop_Suc c_def cs_def)
    have ext: "take (Suc q - p) (drop p S) = cur @ [c]"
      using lt 1(4) by (simp add: take_Suc_conv_app_nth Suc_diff_le cur_def c_def)
    have len: "length cur = q - p"
      using lt by (simp add: cur_def)
    have lst: "last cur = S ! (q - 1)" if "p < q"
    proof -
      have "cur \<noteq> []"
        using len that by auto
      then have "last cur = cur ! (q - p - 1)"
        by (simp add: last_conv_nth len)
      also have "\<dots> = S ! (p + (q - p - 1))"
        using that lt by (simp add: cur_def)
      finally show ?thesis
        using that by simp
    qed
    have ne: "cur \<noteq> [] \<longleftrightarrow> p < q"
      using len by (cases cur) auto
    show ?thesis
    proof (cases "is_alnum c")
      case False
      define n where "n = length (takeWhile (\<lambda>c. \<not> is_alnum c) (drop q S))"
      have re: "regexExec S q = Some (q + n)"
        using lt False by (simp add: regexExec_at n_def c_def)
      have "n \<le> length (drop q S)"
        unfolding n_def by (rule length_takeWhile_le)
      moreover have "0 < n"
        using False by (simp add: n_def d)
      ultimately have n: "0 < n" "q + n \<le> length S"
        using lt by auto
      have "drop (q + n) S = drop n (drop q S)"
        by (simp add: add.commute)
      also have "\<dots> = dropWhile (\<lambda>c. \<not> is_alnum c) (drop q S)"
        unfolding n_def by (rule drop_takeWhile_run)
      also have "\<dots> = dropWhile (\<lambda>c. \<not> is_alnum c) cs"
        using False by (simp add: d)
      finally have dr: "drop (q + n) S = dropWhile (\<lambda>c. \<not> is_alnum c) cs" .
      have e: "min (q + n) (length S) = q + n" "q + n \<noteq> p"
        using n 1(4) by auto
      have "split_loop S (q + n) (q + n) = scan [] (drop (q + n) S)"
        using 1(3)[OF lt re e(1)[symmetric] e(2)] n by simp
      moreover have "split_loop S p q = cur # split_loop S (q + n) (q + n)"
        by (subst split_loop.simps) (simp add: lt re e cur_def Let_def)
      moreover have "scan cur (c # cs) = cur # scan [] (dropWhile (\<lambda>c. \<not> is_alnum c) cs)"
        using False by (simp add: scan.simps(2))
      ultimately show ?thesis
        by (simp add: d dr cur_def[symmetric])
    next
      case alnum: True
      show ?thesis
      proof (cases "0 < q \<and> boundary (S ! (q - 1)) c cs")
        case False
        then have re: "regexExec S q = None"
          using lt alnum by (simp add: regexExec_at c_def cs_def)
        have "split_loop S p (Suc q) = scan (cur @ [c]) cs"
          using 1(1)[OF lt re] lt 1(4) ext by (simp add: cs_def)
        moreover have "\<not> (cur \<noteq> [] \<and> boundary (last cur) c cs)"
          using False lst ne by auto
        then have "scan cur (c # cs) = scan (cur @ [c]) cs"
          using alnum by (auto simp: scan.simps(2))
        moreover have "split_loop S p q = split_loop S p (Suc q)"
          by (subst split_loop.simps) (simp add: lt re)
        ultimately show ?thesis
          by (simp add: d cur_def[symmetric])
      next
        case bd: True
        then have re: "regexExec S q = Some q"
          using lt alnum by (simp add: regexExec_at c_def cs_def)
        have e: "min q (length S) = q"
          using lt by simp
        show ?thesis
        proof (cases "p = q")
          case True
          then have "cur = []"
            using len by simp
          have "split_loop S p (Suc q) = scan (cur @ [c]) cs"
            using 1(2)[OF lt re e[symmetric] True[symmetric]] lt ext
            by (simp add: cs_def True)
          moreover have "scan cur (c # cs) = scan (cur @ [c]) cs"
            using alnum \<open>cur = []\<close> by (simp add: scan.simps(2))
          moreover have "split_loop S p q = split_loop S p (Suc q)"
            by (subst split_loop.simps) (simp add: lt re e True Let_def)
          ultimately show ?thesis
            by (simp add: d cur_def[symmetric])
        next
          case False
          then have pq: "p < q" "q \<noteq> p" using 1(4) by simp_all
          have "split_loop S q q = scan [] (c # cs)"
            using 1(3)[OF lt re e[symmetric] pq(2)] lt d by simp
          also have "\<dots> = scan [c] cs"
            using alnum by (simp add: scan.simps(2))
          finally have "split_loop S q q = scan [c] cs" .
          moreover have "cur \<noteq> [] \<and> boundary (last cur) c cs"
            using bd lst pq ne by auto
          then have "scan cur (c # cs) = cur # scan [c] cs"
            using alnum by (simp add: scan.simps(2))
          moreover have "split_loop S p q = cur # split_loop S q q"
            by (subst split_loop.simps) (simp add: lt re e pq(2) cur_def Let_def)
          ultimately show ?thesis
            by (simp add: d cur_def[symmetric])
        qed
      qed
    qed
  qed
qed

lemma regex_split_scan: "regex_split S = scan [] S"
proof (cases "S = []")
  case True
  then show ?thesis
    by (simp add: regex_split_def regexExec_def first_match_def alt_separators_def alt_camel_def
        alt_acronym_def alt_letter_digit_def alt_digit_letter_def lookahead_def lookbehind_def)
next
  case False
  then show ?thesis
    using split_loop_scan[of 0 0 S] by (simp add: regex_split_def)
qed

section \<open>Properties of the pieces and of the extracted words\<close>

lemma alnum_not_space: "is_alnum c \<Longrightarrow> \<not> is_space c"
  by (auto simp: is_alnum_def is_lower_def is_upper_def is_digit_def is_space_def word_le_nat_alt)

lemma dropWhile_all_iff: "(\<forall>x\<in>set (dropWhile P xs). P x) \<longleftrightarrow> (\<forall>x\<in>set xs. P x)"
  by (induction xs) auto

lemma trim_empty_iff: "trim s = [] \<longleftrightarrow> list_all is_space s"
  by (simp add: trim_def list_all_iff dropWhile_all_iff)

lemma trim_alnum: "list_all is_alnum w \<Longrightarrow> trim w = w"
proof -
  assume a: "list_all is_alnum w"
  have 1: "dropWhile is_space xs = xs" if "list_all is_alnum xs" for xs
    using that by (cases xs) (auto simp: alnum_not_space)
  have "list_all is_alnum (rev w)"
    using a by (simp add: list_all_iff)
  then show ?thesis
    using a by (simp add: trim_def 1)
qed

lemma scan_alnum:
  "list_all is_alnum cur \<Longrightarrow> w \<in> set (scan cur rest) \<Longrightarrow> list_all is_alnum w"
proof (induction cur rest rule: scan.induct)
  case (1 cur)
  then show ?case by simp
next
  case (2 cur c cs)
  then show ?case
    by (auto simp: scan.simps(2) split: if_splits)
qed

lemma homogeneous_snoc:
  assumes "homogeneous cur" "is_alnum c" "cur = [] \<or> \<not> boundary (last cur) c cs"
  shows "homogeneous (cur @ [c])"
proof (cases "cur = []")
  case True
  then show ?thesis
    using assms(2) by (auto simp: homogeneous_def is_alnum_def is_alpha_def)
next
  case False
  then have l: "last cur \<in> set cur" by simp
  have nb: "\<not> (is_alpha (last cur) \<and> is_digit c)" "\<not> (is_digit (last cur) \<and> is_alpha c)"
    using assms(3) False by (auto simp: boundary_def)
  show ?thesis
    using assms(1,2) l nb
    by (auto simp: homogeneous_def list_all_iff is_alnum_def is_alpha_def)
qed

lemma scan_homogeneous:
  "homogeneous cur \<Longrightarrow> w \<in> set (scan cur rest) \<Longrightarrow> homogeneous w"
proof (induction cur rest rule: scan.induct)
  case (1 cur)
  then show ?case by simp
next
  case (2 cur c cs)
  have e: "homogeneous []" by (simp add: homogeneous_def)
  show ?case
  proof (cases "is_alnum c")
    case False
    with 2 e show ?thesis by (auto simp: scan.simps(2))
  next
    case alnum: True
    show ?thesis
    proof (cases "cur \<noteq> [] \<and> boundary (last cur) c cs")
      case True
      have "homogeneous [c]"
        using alnum by (auto simp: homogeneous_def is_alnum_def is_alpha_def)
      with 2 alnum True show ?thesis by (auto simp: scan.simps(2))
    next
      case False
      then have "homogeneous (cur @ [c])"
        using homogeneous_snoc[OF 2(4) alnum] by blast
      with 2 alnum False show ?thesis by (auto simp: scan.simps(2))
    qed
  qed
qed

lemma filter_dropWhile_not: "filter P (dropWhile (\<lambda>x. \<not> P x) xs) = filter P xs"
  by (induction xs) auto

lemma scan_concat: "concat (scan cur rest) = cur @ filter is_alnum rest"
  by (induction cur rest rule: scan.induct) (auto simp: scan.simps(2) filter_dropWhile_not)

lemma concat_filter_nonempty: "concat (filter (\<lambda>w. w \<noteq> []) ws) = concat ws"
  by (induction ws) auto

lemma extractWords_scan:
  "extractWords (JString s) = filter (\<lambda>w. w \<noteq> []) (scan [] s)"
proof -
  have pieces: "list_all is_alnum w" if "w \<in> set (scan [] s)" for w
    using scan_alnum[of "[]" w s] that by simp
  have keep: "filter (\<lambda>word. trim word \<noteq> []) (scan [] s) = filter (\<lambda>w. w \<noteq> []) (scan [] s)"
    by (rule filter_cong) (auto simp: trim_alnum pieces)
  show ?thesis
  proof (cases "trim s = []")
    case True
    then have "filter is_alnum s = []"
      by (auto simp: trim_empty_iff list_all_iff filter_empty_conv alnum_not_space)
    then have "concat (scan [] s) = []"
      by (simp add: scan_concat)
    then have "filter (\<lambda>w. w \<noteq> []) (scan [] s) = []"
      by (auto simp: filter_empty_conv)
    with True show ?thesis
      by (simp add: extractWords_def)
  next
    case False
    then show ?thesis
      by (simp add: extractWords_def regex_split_scan keep)
  qed
qed

lemma extractWords_not_string: "\<not> is_string v \<Longrightarrow> extractWords v = []"
  by (cases v) (simp_all add: extractWords_def is_string_def)

lemma extractWords_word:
  assumes "w \<in> set (extractWords v)"
  shows "w \<noteq> []" "list_all is_alnum w" "homogeneous w"
proof -
  obtain s where v: "v = JString s"
    using assms by (cases v) (simp_all add: extractWords_def)
  have in_scan: "w \<in> set (scan [] s)" and ne: "w \<noteq> []"
    using assms by (simp_all add: v extractWords_scan)
  show "w \<noteq> []" by (rule ne)
  show "list_all is_alnum w"
    using scan_alnum[of "[]" w s] in_scan by simp
  show "homogeneous w"
    using scan_homogeneous[of "[]" w s] in_scan by (simp add: homogeneous_def)
qed

lemma extractWords_concat: "concat (extractWords (JString s)) = filter is_alnum s"
  by (simp add: extractWords_scan concat_filter_nonempty scan_concat)

lemma extractWords_empty_iff:
  "extractWords (JString s) = [] \<longleftrightarrow> list_all (\<lambda>c. \<not> is_alnum c) s"
proof
  assume "extractWords (JString s) = []"
  then have "filter is_alnum s = []"
    using extractWords_concat[of s] by simp
  then show "list_all (\<lambda>c. \<not> is_alnum c) s"
    by (simp add: filter_empty_conv list_all_iff)
next
  assume "list_all (\<lambda>c. \<not> is_alnum c) s"
  then have "concat (extractWords (JString s)) = []"
    by (simp add: extractWords_concat filter_empty_conv list_all_iff)
  moreover have "w \<noteq> []" if "w \<in> set (extractWords (JString s))" for w
    using that by (rule extractWords_word(1))
  ultimately show "extractWords (JString s) = []"
    by (cases "extractWords (JString s)") auto
qed

subsection \<open>The words in their places in the input\<close>

lemma weave_prepend: "r @ weave (g # gs) ws = weave ((r @ g) # gs) ws"
  by (cases ws) simp_all

lemma scan_weave:
  "list_all is_alnum cur \<Longrightarrow>
   \<exists>gaps. length gaps = Suc (length (filter (\<lambda>w. w \<noteq> []) (scan cur rest))) \<and>
          list_all separators gaps \<and> (cur \<noteq> [] \<longrightarrow> hd gaps = []) \<and>
          cur @ rest = weave gaps (filter (\<lambda>w. w \<noteq> []) (scan cur rest))"
proof (induction cur rest rule: scan.induct)
  case (1 cur)
  show ?case
  proof (cases "cur = []")
    case True
    then show ?thesis
      by (intro exI[of _ "[[]]"]) (simp add: separators_def)
  next
    case False
    then show ?thesis
      by (intro exI[of _ "[[], []]"]) (simp add: separators_def)
  qed
next
  case (2 cur c cs)
  show ?case
  proof (cases "is_alnum c")
    case False
    define run where "run = c # takeWhile (\<lambda>c. \<not> is_alnum c) cs"
    define rest' where "rest' = dropWhile (\<lambda>c. \<not> is_alnum c) cs"
    define ws' where "ws' = filter (\<lambda>w. w \<noteq> []) (scan [] rest')"
    have sc: "scan cur (c # cs) = cur # scan [] rest'"
      using False by (simp add: scan.simps(2) rest'_def)
    have run: "separators run" "c # cs = run @ rest'"
      using False by (auto simp: run_def rest'_def separators_def list_all_iff dest: set_takeWhileD)
    from 2(1)[OF False] obtain gaps' where g:
      "length gaps' = Suc (length ws')" "list_all separators gaps'" "rest' = weave gaps' ws'"
      by (auto simp: ws'_def rest'_def)
    then obtain g0 gs where gaps': "gaps' = g0 # gs"
      by (cases gaps') auto
    have eq: "c # cs = weave ((run @ g0) # gs) ws'"
      using run(2) g(3) by (simp add: gaps' weave_prepend)
    have seps: "list_all separators ((run @ g0) # gs)"
      using g(2) run(1) by (simp add: gaps' separators_def)
    show ?thesis
    proof (cases "cur = []")
      case True
      then have fw: "filter (\<lambda>w. w \<noteq> []) (scan cur (c # cs)) = ws'"
        unfolding sc by (simp add: ws'_def)
      have "length ((run @ g0) # gs) = Suc (length ws')"
        using g(1) by (simp add: gaps')
      then show ?thesis
        unfolding fw using eq seps True
        by (intro exI[of _ "(run @ g0) # gs"]) simp
    next
      case False
      then have fw: "filter (\<lambda>w. w \<noteq> []) (scan cur (c # cs)) = cur # ws'"
        unfolding sc by (simp add: ws'_def)
      have "length ([] # (run @ g0) # gs) = Suc (length (cur # ws'))"
        using g(1) by (simp add: gaps')
      moreover have "list_all separators ([] # (run @ g0) # gs)"
        using seps by (simp add: separators_def)
      moreover have "cur @ c # cs = weave ([] # (run @ g0) # gs) (cur # ws')"
        using eq by simp
      ultimately show ?thesis
        unfolding fw by (intro exI[of _ "[] # (run @ g0) # gs"]) simp
    qed
  next
    case alnum: True
    show ?thesis
    proof (cases "cur \<noteq> [] \<and> boundary (last cur) c cs")
      case True
      define ws' where "ws' = filter (\<lambda>w. w \<noteq> []) (scan [c] cs)"
      have sc: "scan cur (c # cs) = cur # scan [c] cs"
        using alnum True by (simp add: scan.simps(2))
      from 2(2)[OF _ True] alnum obtain gaps' where g:
        "length gaps' = Suc (length ws')" "list_all separators gaps'" "hd gaps' = []"
        "c # cs = weave gaps' ws'"
        by (auto simp: ws'_def)
      then obtain gs where gaps': "gaps' = [] # gs"
        by (cases gaps') auto
      have fw: "filter (\<lambda>w. w \<noteq> []) (scan cur (c # cs)) = cur # ws'"
        unfolding sc using True by (simp add: ws'_def)
      have "length ([] # gaps') = Suc (length (cur # ws'))"
        using g(1) by simp
      moreover have "list_all separators ([] # gaps')"
        using g(2) by (simp add: separators_def)
      moreover have "cur @ c # cs = weave ([] # gaps') (cur # ws')"
        using g(4) by simp
      ultimately show ?thesis
        unfolding fw by (intro exI[of _ "[] # gaps'"]) simp
    next
      case False
      have sc: "scan cur (c # cs) = scan (cur @ [c]) cs"
        using alnum False by (auto simp: scan.simps(2))
      have "list_all is_alnum (cur @ [c])"
        using 2(4) alnum by simp
      from 2(3)[OF _ False this] alnum show ?thesis
        unfolding sc by auto
    qed
  qed
qed

section \<open>Case mappings\<close>

lemma unat_plus_32: "unat c \<le> 90 \<Longrightarrow> unat (c + 0x20 :: code_unit) = unat c + 32"
  by (subst unat_add_lem[THEN iffD1]) simp_all

lemma unat_minus_32: "97 \<le> unat c \<Longrightarrow> unat (c - 0x20 :: code_unit) = unat c - 32"
  by (subst unat_sub) (simp_all add: word_le_nat_alt)

lemma upper_plus: "is_upper c \<Longrightarrow> is_lower (c + 0x20)"
  by (simp add: is_upper_def is_lower_def word_le_nat_alt unat_plus_32)

lemma lower_minus: "is_lower c \<Longrightarrow> is_upper (c - 0x20)"
  by (auto simp: is_upper_def is_lower_def word_le_nat_alt unat_minus_32)

lemma lower_unit_cases:
  "is_upper c \<Longrightarrow> is_lower (lower_unit c)"
  "is_lower c \<Longrightarrow> lower_unit c = c"
  "is_digit c \<Longrightarrow> lower_unit c = c"
  "\<not> is_alnum c \<Longrightarrow> lower_unit c = c"
  by (auto simp: lower_unit_def upper_plus class_disjoint is_alnum_def)

lemma upper_unit_cases:
  "is_lower c \<Longrightarrow> is_upper (upper_unit c)"
  "is_upper c \<Longrightarrow> upper_unit c = c"
  "is_digit c \<Longrightarrow> upper_unit c = c"
  "\<not> is_alnum c \<Longrightarrow> upper_unit c = c"
  by (auto simp: upper_unit_def lower_minus class_disjoint is_alnum_def)

lemma lower_unit_idem: "lower_unit (lower_unit c) = lower_unit c"
  using upper_plus[of c] by (auto simp: lower_unit_def class_disjoint)

lemma lower_upper_unit: "lower_unit (upper_unit c) = lower_unit c"
  using lower_minus[of c] by (auto simp: lower_unit_def upper_unit_def class_disjoint)

lemma upper_lower_unit: "upper_unit (lower_unit c) = upper_unit c"
  using upper_plus[of c] by (auto simp: lower_unit_def upper_unit_def class_disjoint)

lemma alnum_cases: "is_alnum c \<longleftrightarrow> is_lower c \<or> is_upper c \<or> is_digit c"
  by (simp add: is_alnum_def)

lemma lower_unit_alnum: "is_alnum (lower_unit c) = is_alnum c"
proof (cases "is_upper c")
  case True
  then show ?thesis by (simp add: lower_unit_cases(1) is_alnum_def)
next
  case False
  then show ?thesis by (simp add: lower_unit_def)
qed

lemma upper_unit_alnum: "is_alnum (upper_unit c) = is_alnum c"
proof (cases "is_lower c")
  case True
  then show ?thesis by (simp add: upper_unit_cases(1) is_alnum_def)
next
  case False
  then show ?thesis by (simp add: upper_unit_def)
qed

lemma toLowerCase_idem: "toLowerCase (toLowerCase w) = toLowerCase w"
  by (simp add: toLowerCase_def lower_unit_idem)

lemma toLowerCase_toUpperCase: "toLowerCase (toUpperCase w) = toLowerCase w"
  by (simp add: toLowerCase_def toUpperCase_def lower_upper_unit)

lemma capitalize_Cons: "capitalize (c # cs) = upper_unit c # map lower_unit cs"
  by (simp add: capitalize_def toUpperCase_def toLowerCase_def)

lemma toLowerCase_capitalize: "toLowerCase (capitalize w) = toLowerCase w"
  by (cases w) (simp_all add: capitalize_def toLowerCase_def toUpperCase_def lower_upper_unit lower_unit_idem)

section \<open>Extracting the words of a converted string again\<close>

lemma boundary_rest:
  "rest = [] \<or> \<not> is_alnum (hd rest) \<Longrightarrow> boundary a b (cs @ rest) = boundary a b cs"
  by (cases cs; cases rest) (auto simp: boundary_def is_alnum_def)

lemma no_boundary_last:
  "no_boundary (cur @ c # w) \<Longrightarrow> cur \<noteq> [] \<Longrightarrow> \<not> boundary (last cur) c w"
proof (induction cur)
  case Nil
  then show ?case by simp
next
  case (Cons a cur)
  then show ?case by (cases cur) auto
qed

lemma scan_word:
  "list_all is_alnum w \<Longrightarrow> no_boundary (cur @ w) \<Longrightarrow> rest = [] \<or> \<not> is_alnum (hd rest) \<Longrightarrow>
   scan cur (w @ rest) = scan (cur @ w) rest"
proof (induction w arbitrary: cur)
  case Nil
  then show ?case by simp
next
  case (Cons c w)
  have "\<not> (cur \<noteq> [] \<and> boundary (last cur) c (w @ rest))"
    using no_boundary_last[of cur c w] Cons.prems(2,3) by (auto simp: boundary_rest)
  then have "scan cur (c # w @ rest) = scan (cur @ [c]) (w @ rest)"
    using Cons.prems(1) by (auto simp: scan.simps(2))
  also have "\<dots> = scan ((cur @ [c]) @ w) rest"
    using Cons.prems by (intro Cons.IH) simp_all
  finally show ?case by simp
qed

lemma join_Cons: "join sep (w # ws) = (if ws = [] then w else w @ sep @ join sep ws)"
  by (cases ws) simp_all

lemma scan_join:
  assumes "\<not> is_alnum s"
  shows "ws \<noteq> [] \<Longrightarrow> list_all solid ws \<Longrightarrow> scan [] (join [s] ws) = ws"
proof (induction ws)
  case Nil
  then show ?case by simp
next
  case (Cons w ws)
  have w: "w \<noteq> []" "list_all is_alnum w" "no_boundary w"
    using Cons.prems(2) by (simp_all add: solid_def)
  show ?case
  proof (cases "ws = []")
    case True
    then show ?thesis
      using scan_word[of w "[]" "[]"] w by simp
  next
    case False
    then obtain w' ws' where ws: "ws = w' # ws'"
      by (cases ws) auto
    have "solid w'"
      using Cons.prems(2) by (simp add: ws)
    then obtain c cs where w': "w' = c # cs" "is_alnum c"
      by (cases w') (auto simp: solid_def)
    have hd: "dropWhile (\<lambda>c. \<not> is_alnum c) (join [s] ws) = join [s] ws"
      by (simp add: ws join_Cons w')
    have "scan [] (join [s] (w # ws)) = scan [] (w @ s # join [s] ws)"
      using False by (simp add: join_Cons)
    also have "\<dots> = scan w (s # join [s] ws)"
      using scan_word[of w "[]" "s # join [s] ws"] w assms by simp
    also have "\<dots> = w # scan [] (join [s] ws)"
      using assms by (simp add: scan.simps(2) hd)
    also have "\<dots> = w # ws"
      using Cons.IH False Cons.prems(2) by simp
    finally show ?thesis .
  qed
qed

lemma extractWords_join:
  assumes "\<not> is_alnum s" "list_all solid ws"
  shows "extractWords (JString (join [s] ws)) = ws"
proof (cases "ws = []")
  case True
  then show ?thesis
    by (simp add: extractWords_scan)
next
  case False
  have "filter (\<lambda>w. w \<noteq> []) ws = ws"
    using assms(2) by (auto simp: filter_id_conv list_all_iff solid_def)
  then show ?thesis
    using scan_join[OF assms(1) False assms(2)] by (simp add: extractWords_scan)
qed

lemma no_boundary_lower: "list_all is_lower w \<Longrightarrow> no_boundary w"
  by (induction w rule: no_boundary.induct)
     (auto simp: boundary_def is_alpha_def class_disjoint)

lemma no_boundary_upper: "list_all is_upper w \<Longrightarrow> no_boundary w"
  by (induction w rule: no_boundary.induct)
     (auto simp: boundary_def is_alpha_def class_disjoint split: list.splits)

lemma no_boundary_digit: "list_all is_digit w \<Longrightarrow> no_boundary w"
  by (induction w rule: no_boundary.induct)
     (auto simp: boundary_def is_alpha_def class_disjoint)

lemma no_boundary_capitalized: "is_upper c \<Longrightarrow> list_all is_lower cs \<Longrightarrow> no_boundary (c # cs)"
  using no_boundary_lower[of cs]
  by (cases cs) (auto simp: boundary_def is_alpha_def class_disjoint)

lemma toLowerCase_alpha: "list_all is_alpha w \<Longrightarrow> list_all is_lower (toLowerCase w)"
  by (auto simp: list_all_iff toLowerCase_def is_alpha_def lower_unit_cases)

lemma toUpperCase_alpha: "list_all is_alpha w \<Longrightarrow> list_all is_upper (toUpperCase w)"
  by (auto simp: list_all_iff toUpperCase_def is_alpha_def upper_unit_cases)

lemma toLowerCase_digit: "list_all is_digit w \<Longrightarrow> toLowerCase w = w"
  by (auto simp: list_all_iff toLowerCase_def lower_unit_cases map_idI)

lemma toUpperCase_digit: "list_all is_digit w \<Longrightarrow> toUpperCase w = w"
  by (auto simp: list_all_iff toUpperCase_def upper_unit_cases map_idI)

lemma capitalize_digit: "list_all is_digit w \<Longrightarrow> capitalize w = w"
  by (cases w)
     (auto simp: capitalize_def toUpperCase_def toLowerCase_def list_all_iff upper_unit_cases
        lower_unit_cases map_idI)

lemma alpha_alnum: "list_all is_alpha w \<Longrightarrow> list_all is_alnum w"
  by (auto simp: list_all_iff is_alpha_def is_alnum_def)

lemma lower_alnum: "list_all is_lower w \<Longrightarrow> list_all is_alnum w"
  by (auto simp: list_all_iff is_alnum_def)

lemma upper_alnum: "list_all is_upper w \<Longrightarrow> list_all is_alnum w"
  by (auto simp: list_all_iff is_alnum_def)

lemma digit_alnum: "list_all is_digit w \<Longrightarrow> list_all is_alnum w"
  by (auto simp: list_all_iff is_alnum_def)

lemma solid_digit: "w \<noteq> [] \<Longrightarrow> list_all is_digit w \<Longrightarrow> solid w"
  by (simp add: solid_def digit_alnum no_boundary_digit)

lemma solid_toLowerCase:
  assumes "w \<noteq> []" "homogeneous w"
  shows "solid (toLowerCase w)"
proof (cases "list_all is_alpha w")
  case True
  then have "list_all is_lower (toLowerCase w)"
    by (rule toLowerCase_alpha)
  then show ?thesis
    using assms(1) by (simp add: solid_def lower_alnum no_boundary_lower toLowerCase_def)
next
  case False
  then have "list_all is_digit w"
    using assms(2) by (simp add: homogeneous_def)
  then show ?thesis
    using assms(1) by (simp add: toLowerCase_digit solid_digit)
qed

lemma solid_toUpperCase:
  assumes "w \<noteq> []" "homogeneous w"
  shows "solid (toUpperCase w)"
proof (cases "list_all is_alpha w")
  case True
  then have "list_all is_upper (toUpperCase w)"
    by (rule toUpperCase_alpha)
  then show ?thesis
    using assms(1) by (simp add: solid_def upper_alnum no_boundary_upper toUpperCase_def)
next
  case False
  then have "list_all is_digit w"
    using assms(2) by (simp add: homogeneous_def)
  then show ?thesis
    using assms(1) by (simp add: toUpperCase_digit solid_digit)
qed

lemma solid_capitalize:
  assumes "w \<noteq> []" "homogeneous w"
  shows "solid (capitalize w)"
proof (cases "list_all is_alpha w")
  case True
  obtain c cs where w: "w = c # cs"
    using assms(1) by (cases w) auto
  have up: "is_upper (upper_unit c)"
    using True by (auto simp: w is_alpha_def upper_unit_cases)
  have lo: "list_all is_lower (map lower_unit cs)"
    using True toLowerCase_alpha[of cs] by (simp add: w toLowerCase_def)
  have "no_boundary (upper_unit c # map lower_unit cs)"
    using up lo by (rule no_boundary_capitalized)
  moreover have "list_all is_alnum (upper_unit c # map lower_unit cs)"
    using up lo lower_alnum[of "map lower_unit cs"] by (simp add: is_alnum_def)
  ultimately show ?thesis
    by (simp add: solid_def w capitalize_Cons)
next
  case False
  then have "list_all is_digit w"
    using assms(2) by (simp add: homogeneous_def)
  then show ?thesis
    using assms(1) by (simp add: capitalize_digit solid_digit)
qed

lemma extractWords_solid_map:
  assumes "\<And>w. w \<noteq> [] \<Longrightarrow> homogeneous w \<Longrightarrow> solid (f w)"
  shows "list_all solid (map f (extractWords v))"
  using assms extractWords_word[of _ v] by (auto simp: list_all_iff)

lemma reextract:
  assumes "\<not> is_alnum s" "\<And>w. w \<noteq> [] \<Longrightarrow> homogeneous w \<Longrightarrow> solid (f w)"
  shows "extractWords (JString (join [s] (map f (extractWords v)))) = map f (extractWords v)"
  using extractWords_join[OF assms(1) extractWords_solid_map[of f v]] assms(2) by simp

lemma sentence_join:
  assumes "ws \<noteq> []" "hd ws \<noteq> []" "lower_unit s = s"
  shows "capitalize (join [s] (map toLowerCase ws)) = join [s] (capitalize (hd ws) # map toLowerCase (tl ws))"
proof -
  obtain c cs ws' where ws: "ws = (c # cs) # ws'"
    using assms(1,2) by (cases ws; cases "hd ws") auto
  have idem: "toLowerCase (join [s] (map toLowerCase xs)) = join [s] (map toLowerCase xs)" for xs
    by (induction xs) (simp_all add: join_Cons toLowerCase_def lower_unit_idem assms(3))
  show ?thesis
  proof (cases "ws' = []")
    case True
    then show ?thesis
      by (simp add: ws capitalize_Cons toLowerCase_def lower_unit_idem upper_lower_unit)
  next
    case False
    have "toLowerCase (cs @ s # join [s] (map toLowerCase ws')) = toLowerCase cs @ s # join [s] (map toLowerCase ws')"
      using idem[of ws'] by (simp add: toLowerCase_def assms(3))
    then show ?thesis
      using False
      by (simp add: ws join_Cons capitalize_def toLowerCase_def toUpperCase_def lower_unit_idem upper_lower_unit)
  qed
qed

section \<open>The branches of \<open>convertCase\<close>\<close>

lemma joiners: "js '' '' = [0x20]" "js ''_'' = [0x5F]" "js ''-'' = [0x2D]" "js ''.'' = [0x2E]"
  by (simp_all add: js_def)

lemma joiners_not_alnum:
  "\<not> is_alnum 0x20" "\<not> is_alnum 0x5F" "\<not> is_alnum 0x2D" "\<not> is_alnum 0x2E"
  by (simp_all add: is_alnum_def is_lower_def is_upper_def is_digit_def)

lemma CaseType_distinct: "distinct CaseType"
  by (simp add: CaseType_def js_def)

lemma convertCase_no_words: "extractWords input = [] \<Longrightarrow> convertCase input caseType = Inr []"
  by (simp add: convertCase_def)

lemma convertCase_words:
  assumes "extractWords input = ws" "ws \<noteq> []"
  shows
    "convertCase input (js ''lowercase'') = Inr (join (js '' '') (map toLowerCase ws))"
    "convertCase input (js ''uppercase'') = Inr (join (js '' '') (map toUpperCase ws))"
    "convertCase input (js ''sentence'') = Inr (capitalize (join (js '' '') (map toLowerCase ws)))"
    "convertCase input (js ''title'') = Inr (join (js '' '') (map capitalize ws))"
    "convertCase input (js ''snake'') = Inr (join (js ''_'') (map toLowerCase ws))"
    "convertCase input (js ''kebab'') = Inr (join (js ''-'') (map toLowerCase ws))"
    "convertCase input (js ''camel'') =
       Inr (if length ws = 1 then toLowerCase (ws ! 0)
            else toLowerCase (ws ! 0) @ join [] (map capitalize (drop 1 ws)))"
    "convertCase input (js ''pascal'') = Inr (join [] (map capitalize ws))"
    "convertCase input (js ''dot'') = Inr (join (js ''.'') (map toLowerCase ws))"
    "convertCase input (js ''constant'') = Inr (join (js ''_'') (map toUpperCase ws))"
proof -
  have s: "is_string input"
    using assms extractWords_not_string[of input] by auto
  show "convertCase input (js ''lowercase'') = Inr (join (js '' '') (map toLowerCase ws))"
    using assms s by (simp add: convertCase_def)
  show "convertCase input (js ''uppercase'') = Inr (join (js '' '') (map toUpperCase ws))"
    using assms s by (simp add: convertCase_def js_def)
  show "convertCase input (js ''sentence'') = Inr (capitalize (join (js '' '') (map toLowerCase ws)))"
    using assms s by (simp add: convertCase_def js_def)
  show "convertCase input (js ''title'') = Inr (join (js '' '') (map capitalize ws))"
    using assms s by (simp add: convertCase_def js_def)
  show "convertCase input (js ''snake'') = Inr (join (js ''_'') (map toLowerCase ws))"
    using assms s by (simp add: convertCase_def js_def)
  show "convertCase input (js ''kebab'') = Inr (join (js ''-'') (map toLowerCase ws))"
    using assms s by (simp add: convertCase_def js_def)
  show "convertCase input (js ''camel'') =
       Inr (if length ws = 1 then toLowerCase (ws ! 0)
            else toLowerCase (ws ! 0) @ join [] (map capitalize (drop 1 ws)))"
    using assms s by (simp add: convertCase_def js_def)
  show "convertCase input (js ''pascal'') = Inr (join [] (map capitalize ws))"
    using assms s by (simp add: convertCase_def js_def)
  show "convertCase input (js ''dot'') = Inr (join (js ''.'') (map toLowerCase ws))"
    using assms s by (simp add: convertCase_def js_def)
  show "convertCase input (js ''constant'') = Inr (join (js ''_'') (map toUpperCase ws))"
    using assms s by (simp add: convertCase_def js_def)
qed

lemma convertCase_unsupported:
  assumes "extractWords input \<noteq> []" "caseType \<notin> set CaseType"
  shows "convertCase input caseType = Inl (Error (js ''Unsupported case type: '' @ caseType))"
proof -
  have s: "is_string input"
    using assms extractWords_not_string[of input] by auto
  show ?thesis
    using assms s by (simp add: convertCase_def CaseType_def js_def)
qed

lemma lower_unit_joiner: "lower_unit 0x20 = 0x20" "upper_unit 0x20 = 0x20"
  by (simp_all add: lower_unit_def upper_unit_def is_upper_def is_lower_def)

lemma reextract_lower:
  assumes "\<not> is_alnum s"
  shows "map toLowerCase (extractWords (JString (join [s] (map toLowerCase (extractWords v)))))
         = map toLowerCase (extractWords v)"
  using reextract[OF assms solid_toLowerCase, where v = v] by (simp add: toLowerCase_idem)

lemma reextract_upper:
  assumes "\<not> is_alnum s"
  shows "map toLowerCase (extractWords (JString (join [s] (map toUpperCase (extractWords v)))))
         = map toLowerCase (extractWords v)"
  using reextract[OF assms solid_toUpperCase, where v = v] by (simp add: toLowerCase_toUpperCase)

lemma reextract_capitalize:
  assumes "\<not> is_alnum s"
  shows "map toLowerCase (extractWords (JString (join [s] (map capitalize (extractWords v)))))
         = map toLowerCase (extractWords v)"
  using reextract[OF assms solid_capitalize, where v = v] by (simp add: toLowerCase_capitalize)

lemma reextract_sentence:
  assumes "\<not> is_alnum s" "lower_unit s = s" "extractWords v \<noteq> []"
  shows "map toLowerCase (extractWords (JString (capitalize (join [s] (map toLowerCase (extractWords v))))))
         = map toLowerCase (extractWords v)"
proof -
  obtain w ws where ws: "extractWords v = w # ws"
    using assms(3) by (cases "extractWords v") auto
  have w: "w \<noteq> []" "homogeneous w"
    using extractWords_word[of w v] by (simp_all add: ws)
  have rest: "list_all solid (map toLowerCase ws)"
    using extractWords_solid_map[of toLowerCase v] solid_toLowerCase by (simp add: ws)
  have "capitalize (join [s] (map toLowerCase (w # ws))) = join [s] (capitalize w # map toLowerCase ws)"
    using sentence_join[of "w # ws" s] w(1) assms(2) by simp
  moreover have "extractWords (JString (join [s] (capitalize w # map toLowerCase ws)))
      = capitalize w # map toLowerCase ws"
    using rest solid_capitalize[OF w] by (intro extractWords_join[OF assms(1)]) simp
  ultimately show ?thesis
    by (simp add: ws toLowerCase_capitalize toLowerCase_idem)
qed

lemma reextract_convertCase:
  assumes "caseType \<in> set (map js [''lowercase'', ''uppercase'', ''sentence'', ''title'',
                                     ''snake'', ''kebab'', ''dot'', ''constant''])"
  shows "\<exists>r. convertCase input caseType = Inr r \<and>
             map toLowerCase (extractWords (JString r)) = map toLowerCase (extractWords input)"
proof (cases "extractWords input = []")
  case True
  then show ?thesis
    by (simp add: convertCase_no_words extractWords_scan)
next
  case False
  note cc = convertCase_words[OF refl False]
  note na = joiners_not_alnum
  consider "caseType = js ''lowercase''" | "caseType = js ''uppercase''"
    | "caseType = js ''sentence''" | "caseType = js ''title''" | "caseType = js ''snake''"
    | "caseType = js ''kebab''" | "caseType = js ''dot''" | "caseType = js ''constant''"
    using assms by auto
  then show ?thesis
  proof cases
    case 1
    then show ?thesis by (simp add: cc(1) joiners reextract_lower na)
  next
    case 2
    then show ?thesis by (simp add: cc(2) joiners reextract_upper na)
  next
    case 3
    then show ?thesis
      using reextract_sentence[OF na(1) lower_unit_joiner(1) False]
      by (simp add: cc(3) joiners)
  next
    case 4
    then show ?thesis by (simp add: cc(4) joiners reextract_capitalize na)
  next
    case 5
    then show ?thesis by (simp add: cc(5) joiners reextract_lower na)
  next
    case 6
    then show ?thesis by (simp add: cc(6) joiners reextract_lower na)
  next
    case 7
    then show ?thesis by (simp add: cc(9) joiners reextract_lower na)
  next
    case 8
    then show ?thesis by (simp add: cc(10) joiners reextract_upper na)
  qed
qed

subsection \<open>The code units of a result\<close>

lemma join_chars:
  "(\<forall>w \<in> set ws. \<forall>c \<in> set w. P c) \<Longrightarrow> (\<forall>c \<in> set sep. P c) \<Longrightarrow> \<forall>c \<in> set (join sep ws). P c"
  by (induction ws) (auto simp: join_Cons)

lemma capitalize_chars:
  assumes "\<forall>c \<in> set x. P c" "\<And>c. P c \<Longrightarrow> P (upper_unit c) \<and> P (lower_unit c)"
  shows "\<forall>c \<in> set (capitalize x). P c"
  using assms by (cases x) (auto simp: capitalize_def toUpperCase_def toLowerCase_def)

lemma case_map_alnum:
  assumes "list_all is_alnum w"
  shows "list_all is_alnum (toLowerCase w)" "list_all is_alnum (toUpperCase w)"
    "list_all is_alnum (capitalize w)"
proof -
  show "list_all is_alnum (toLowerCase w)"
    using assms by (simp add: toLowerCase_def list_all_iff lower_unit_alnum)
  show "list_all is_alnum (toUpperCase w)"
    using assms by (simp add: toUpperCase_def list_all_iff upper_unit_alnum)
  show "list_all is_alnum (capitalize w)"
    using capitalize_chars[of w is_alnum] assms
    by (simp add: list_all_iff lower_unit_alnum upper_unit_alnum)
qed

lemma case_map_word:
  assumes "f = toLowerCase \<or> f = toUpperCase \<or> f = capitalize" "list_all is_alnum w"
  shows "list_all is_alnum (f w)"
  using assms(1) by (elim disjE) (simp_all add: case_map_alnum[OF assms(2)])

lemma joined_words_chars:
  assumes "f = toLowerCase \<or> f = toUpperCase \<or> f = capitalize"
  shows "\<forall>c \<in> set (join sep (map f (extractWords v))). is_alnum c \<or> c \<in> set sep"
proof (rule join_chars)
  show "\<forall>x \<in> set (map f (extractWords v)). \<forall>c \<in> set x. is_alnum c \<or> c \<in> set sep"
  proof (intro ballI)
    fix x c
    assume x: "x \<in> set (map f (extractWords v))" and c: "c \<in> set x"
    from x obtain w where w: "w \<in> set (extractWords v)" "x = f w"
      by auto
    have "list_all is_alnum (f w)"
      using assms extractWords_word(2)[OF w(1)] by (rule case_map_word)
    then show "is_alnum c \<or> c \<in> set sep"
      using c w(2) by (simp add: list_all_iff)
  qed
  show "\<forall>c \<in> set sep. is_alnum c \<or> c \<in> set sep"
    by simp
qed

lemma camel_chars:
  assumes "ws = extractWords v" "ws \<noteq> []"
  shows "\<forall>c \<in> set (toLowerCase (ws ! 0) @ join [] (map capitalize (drop 1 ws))). is_alnum c"
proof -
  have w: "list_all is_alnum w" if "w \<in> set ws" for w
    using that extractWords_word(2)[of w v] assms(1) by simp
  have "ws ! 0 \<in> set ws"
    using assms(2) by (cases ws) auto
  then have "list_all is_alnum (toLowerCase (ws ! 0))"
    by (intro case_map_alnum(1) w)
  moreover have "\<forall>c \<in> set x. is_alnum c" if x: "x \<in> set (map capitalize (drop 1 ws))" for x
  proof -
    obtain w' where "w' \<in> set (drop (Suc 0) ws)" "x = capitalize w'"
      using x by auto
    then have "list_all is_alnum x"
      using case_map_alnum(3)[OF w[of w']] by (auto dest: in_set_dropD)
    then show ?thesis
      by (simp add: list_all_iff)
  qed
  then have "\<forall>c \<in> set (join [] (map capitalize (drop 1 ws))). is_alnum c"
    by (intro join_chars) simp_all
  ultimately show ?thesis
    by (auto simp: list_all_iff)
qed

section \<open>An acronym before capitalized words\<close>

lemma scan_lower_run:
  "list_all is_lower l \<Longrightarrow> cur = [] \<or> \<not> is_digit (last cur) \<Longrightarrow>
   scan cur (l @ rest) = scan (cur @ l) rest"
proof (induction l arbitrary: cur)
  case Nil
  then show ?case by simp
next
  case (Cons a l)
  have a: "is_lower a" "is_alnum a" "\<not> is_upper a" "\<not> is_digit a"
    using Cons.prems(1) by (auto simp: is_alnum_def class_disjoint)
  have "\<not> (cur \<noteq> [] \<and> boundary (last cur) a (l @ rest))"
    using Cons.prems(2) a by (auto simp: boundary_def)
  then have "scan cur (a # l @ rest) = scan (cur @ [a]) (l @ rest)"
    using a(2) by (auto simp: scan.simps(2))
  also have "\<dots> = scan ((cur @ [a]) @ l) rest"
    using Cons.prems(1) a(4) by (intro Cons.IH) simp_all
  finally show ?case by simp
qed

lemma scan_upper_run:
  "list_all is_upper u \<Longrightarrow> cur = [] \<or> is_upper (last cur) \<Longrightarrow> is_upper c \<Longrightarrow>
   scan cur (u @ c # rest) = scan (cur @ u) (c # rest)"
proof (induction u arbitrary: cur)
  case Nil
  then show ?case by simp
next
  case (Cons a u)
  have a: "is_upper a" "is_alnum a" "\<not> is_digit a"
    using Cons.prems(1) by (auto simp: is_alnum_def class_disjoint)
  have nxt: "\<not> (case u @ c # rest of [] \<Rightarrow> False | d # _ \<Rightarrow> is_lower d)"
    using Cons.prems(1,3) by (cases u) (auto dest: class_disjoint)
  have "\<not> (cur \<noteq> [] \<and> boundary (last cur) a (u @ c # rest))"
    using Cons.prems(2) a nxt by (auto simp: boundary_def dest: class_disjoint)
  then have "scan cur (a # u @ c # rest) = scan (cur @ [a]) (u @ c # rest)"
    using a(2) by (auto simp: scan.simps(2))
  also have "\<dots> = scan ((cur @ [a]) @ u) (c # rest)"
    using Cons.prems(1,3) a(1) by (intro Cons.IH) simp_all
  finally show ?case by simp
qed

lemma scan_capitalized_words:
  "list_all capitalized ws \<Longrightarrow> cur \<noteq> [] \<Longrightarrow> is_lower (last cur) \<Longrightarrow>
   scan cur (concat ws) = cur # ws"
proof (induction ws arbitrary: cur)
  case Nil
  then show ?case by simp
next
  case (Cons w ws)
  from Cons.prems(1) obtain c l where w: "w = c # l" "is_upper c" "l \<noteq> []" "list_all is_lower l"
    by (cases w) (auto simp: capitalized_def)
  have c: "is_alnum c" "\<not> is_digit c"
    using w(2) by (auto simp: is_alnum_def class_disjoint)
  have ll: "is_lower (last l)"
    using w(3,4) by (simp add: list_all_iff)
  have "boundary (last cur) c (l @ concat ws)"
    using Cons.prems(3) w(2) by (simp add: boundary_def)
  then have "scan cur (c # l @ concat ws) = cur # scan [c] (l @ concat ws)"
    using Cons.prems(2) c(1) by (simp add: scan.simps(2))
  also have "scan [c] (l @ concat ws) = scan ([c] @ l) (concat ws)"
    using w(4) c(2) by (intro scan_lower_run) simp_all
  also have "\<dots> = (c # l) # ws"
    using Cons.prems(1) w(3) ll by (simp add: Cons.IH)
  finally show ?case by (simp add: w(1))
qed

lemma scan_acronym:
  assumes "u \<noteq> []" "list_all is_upper u" "ws \<noteq> []" "list_all capitalized ws"
  shows "scan [] (u @ concat ws) = u # ws"
proof -
  obtain w ws' where ws: "ws = w # ws'"
    using assms(3) by (cases ws) auto
  obtain c l where w: "w = c # l" "is_upper c" "l \<noteq> []" "list_all is_lower l"
    using assms(4) by (cases w) (auto simp: ws capitalized_def)
  obtain a l' where l: "l = a # l'" "is_lower a"
    using w(3,4) by (cases l) auto
  have c: "is_alnum c" "\<not> is_digit c"
    using w(2) by (auto simp: is_alnum_def class_disjoint)
  have lu: "is_upper (last u)"
    using assms(1,2) by (simp add: list_all_iff)
  have ll: "is_lower (last l)"
    using w(3,4) by (simp add: list_all_iff)
  have "scan [] (u @ c # l @ concat ws') = scan ([] @ u) (c # l @ concat ws')"
    using assms(2) w(2) by (intro scan_upper_run) simp_all
  also have "\<dots> = u # scan [c] (l @ concat ws')"
    using assms(1) lu w(2) l c(1) by (simp add: scan.simps(2) boundary_def)
  also have "scan [c] (l @ concat ws') = scan ([c] @ l) (concat ws')"
    using w(4) c(2) by (intro scan_lower_run) simp_all
  also have "\<dots> = (c # l) # ws'"
    using assms(4) w(3) ll by (simp add: ws scan_capitalized_words)
  finally show ?thesis by (simp add: ws w(1))
qed

lemma extractWords_acronym:
  assumes "u \<noteq> []" "list_all is_upper u" "ws \<noteq> []" "list_all capitalized ws"
  shows "extractWords (JString (u @ concat ws)) = u # ws"
proof -
  have "filter (\<lambda>w. w \<noteq> []) ws = ws"
    using assms(4) by (auto simp: filter_id_conv list_all_iff capitalized_def)
  then show ?thesis
    using assms(1) by (simp add: extractWords_scan scan_acronym[OF assms])
qed

lemma capitalize_capitalized: "capitalized w \<Longrightarrow> capitalize w = w"
  by (cases w)
     (auto simp: capitalized_def capitalize_Cons upper_unit_cases lower_unit_cases list_all_iff map_idI)

lemma join_empty: "join [] ws = concat ws"
  by (induction ws) (simp_all add: join_Cons)

lemma convertCase_after_acronym:
  assumes "u \<noteq> []" "list_all is_upper u" "ws \<noteq> []" "list_all capitalized ws"
  shows "convertCase (JString (u @ concat ws)) (js ''camel'') = Inr (toLowerCase u @ concat ws)"
    "convertCase (JString (u @ concat ws)) (js ''pascal'') = Inr (capitalize u @ concat ws)"
proof -
  note e = extractWords_acronym[OF assms]
  have m: "map capitalize ws = ws"
    using assms(4) by (auto simp: list_all_iff capitalize_capitalized map_idI)
  show "convertCase (JString (u @ concat ws)) (js ''camel'') = Inr (toLowerCase u @ concat ws)"
    using assms(3) by (simp add: convertCase_words(7)[OF e] join_empty m)
  show "convertCase (JString (u @ concat ws)) (js ''pascal'') = Inr (capitalize u @ concat ws)"
    by (simp add: convertCase_words(8)[OF e] join_empty m)
qed

lemma capitalize_letters:
  assumes "is_alpha c" "list_all is_alpha cs"
  shows "is_upper (hd (capitalize (c # cs)))" "list_all is_lower (tl (capitalize (c # cs)))"
    "length (capitalize (c # cs)) = Suc (length cs)"
    "toLowerCase (capitalize (c # cs)) = toLowerCase (c # cs)"
proof -
  show "is_upper (hd (capitalize (c # cs)))"
    using assms(1) by (auto simp: capitalize_Cons is_alpha_def upper_unit_cases)
  show "list_all is_lower (tl (capitalize (c # cs)))"
    using toLowerCase_alpha[OF assms(2)] by (simp add: capitalize_Cons toLowerCase_def)
  show "length (capitalize (c # cs)) = Suc (length cs)"
    by (simp add: capitalize_Cons)
  show "toLowerCase (capitalize (c # cs)) = toLowerCase (c # cs)"
    by (rule toLowerCase_capitalize)
qed

section \<open>The claims\<close>

text \<open>
  C1, as the spec states it: for every input, a case type outside the ten values makes
  \<open>convertCase\<close> fail. The code returns the empty string before it looks at the case
  type when the input is not a string or holds no word.
\<close>

theorem unsupported_caseType_counterexample:
  "js ''not-a-real-case'' \<notin> set CaseType \<and>
   convertCase (JString (js ''!!!'')) (js ''not-a-real-case'') = Inr [] \<and>
   convertCase (JString []) (js ''not-a-real-case'') = Inr []"
proof -
  have "js ''not-a-real-case'' \<notin> set CaseType"
    by (simp add: CaseType_def js_def)
  moreover have "convertCase (JString (js ''!!!'')) (js ''not-a-real-case'') = Inr []"
    by code_simp
  moreover have "convertCase (JString []) (js ''not-a-real-case'') = Inr []"
    by code_simp
  ultimately show ?thesis
    by simp
qed

text \<open>
  C1, amended. For every input from which at least one word is extracted, a case type
  outside the ten values makes \<open>convertCase\<close> fail with the error whose message is
  \<open>"Unsupported case type: "\<close> followed by that value; when no word is extracted,
  \<open>convertCase\<close> returns the empty string whatever the case type. A case type among
  the ten values never makes it fail, whatever the input. An error is returned in no
  other case.
\<close>

theorem unsupported_caseType:
  "(caseType \<notin> set CaseType \<and> extractWords input \<noteq> [] \<longrightarrow>
      convertCase input caseType = Inl (Error (js ''Unsupported case type: '' @ caseType))) \<and>
   (extractWords input = [] \<longrightarrow> convertCase input caseType = Inr []) \<and>
   (caseType \<in> set CaseType \<longrightarrow> (\<exists>r. convertCase input caseType = Inr r)) \<and>
   ((\<exists>e. convertCase input caseType = Inl e) \<longleftrightarrow>
      caseType \<notin> set CaseType \<and> extractWords input \<noteq> [])"
proof -
  have bad: "convertCase input caseType = Inl (Error (js ''Unsupported case type: '' @ caseType))"
    if "caseType \<notin> set CaseType" "extractWords input \<noteq> []"
    using that by (simp add: convertCase_unsupported)
  have good: "\<exists>r. convertCase input caseType = Inr r" if "caseType \<in> set CaseType"
  proof (cases "extractWords input = []")
    case True
    then show ?thesis by (simp add: convertCase_no_words)
  next
    case False
    note cc = convertCase_words[OF refl False]
    show ?thesis
      using that cc by (auto simp: CaseType_def)
  qed
  have none: "convertCase input caseType = Inr []" if "extractWords input = []"
    using that by (simp add: convertCase_no_words)
  show ?thesis
    using bad good none by (cases "extractWords input = []"; cases "caseType \<in> set CaseType") auto
qed

theorem unsupported_caseType_witness:
  "convertCase (JString (js ''test'')) (js ''not-a-real-case'') =
     Inl (Error (js ''Unsupported case type: not-a-real-case'')) \<and>
   convertCase JUndefined (js ''not-a-real-case'') = Inr [] \<and>
   convertCase (JString (js '' - '')) (js ''not-a-real-case'') = Inr [] \<and>
   (\<exists>r. convertCase (JString (js ''test'')) (js ''constant'') = Inr r)"
proof -
  have 1: "js ''not-a-real-case'' \<notin> set CaseType"
    by (simp add: CaseType_def js_def)
  have 2: "extractWords (JString (js ''test'')) \<noteq> []"
    by code_simp
  have 3: "js ''constant'' \<in> set CaseType"
    by (simp add: CaseType_def)
  have 4: "js ''Unsupported case type: '' @ js ''not-a-real-case'' = js ''Unsupported case type: not-a-real-case''"
    by (simp add: js_def)
  have 5: "extractWords JUndefined = []" "extractWords (JString (js '' - '')) = []"
    by code_simp+
  show ?thesis
    using unsupported_caseType[of "js ''not-a-real-case''" "JString (js ''test'')"]
      unsupported_caseType[of "js ''constant''" "JString (js ''test'')"]
      unsupported_caseType[of "js ''not-a-real-case''" JUndefined]
      unsupported_caseType[of "js ''not-a-real-case''" "JString (js '' - '')"] 1 2 3 5
    by (simp only: 4 simp_thms)
qed

text \<open>
  C2. When no word is extracted from the input (the input is not a string, or is a string
  that is empty, that holds white space only, or that holds no ASCII letter or digit),
  \<open>convertCase\<close> returns the empty string without an error for every case type, the
  unsupported ones included: the check of the case type comes after both early returns.
\<close>

theorem convertCase_no_words_any_caseType:
  "(extractWords input = [] \<longrightarrow> convertCase input caseType = Inr []) \<and>
   (extractWords input = [] \<longleftrightarrow>
      (case input of JString s \<Rightarrow> list_all (\<lambda>c. \<not> is_alnum c) s | _ \<Rightarrow> True)) \<and>
   (input = JString s \<and> (s = [] \<or> list_all is_space s) \<longrightarrow> extractWords input = [])"
proof -
  have "extractWords input = [] \<longleftrightarrow>
      (case input of JString s \<Rightarrow> list_all (\<lambda>c. \<not> is_alnum c) s | _ \<Rightarrow> True)"
    by (cases input) (simp_all add: extractWords_empty_iff extractWords_not_string is_string_def)
  moreover have "extractWords (JString s) = []" if "s = [] \<or> list_all is_space s"
    using that by (auto simp: extractWords_empty_iff list_all_iff alnum_not_space)
  ultimately show ?thesis
    by (auto simp: convertCase_no_words)
qed

theorem convertCase_no_words_any_caseType_witness:
  "convertCase (JString (js ''   '')) (js ''not-a-real-case'') = Inr [] \<and>
   convertCase JNull (js ''not-a-real-case'') = Inr [] \<and>
   convertCase (JString (js ''!@#$%^&*()'')) (js ''camel'') = Inr []"
proof -
  have 1: "extractWords (JString (js ''   '')) = []"
    by code_simp
  have 2: "extractWords JNull = []"
    by code_simp
  have 3: "extractWords (JString (js ''!@#$%^&*()'')) = []"
    by code_simp
  show ?thesis
    using convertCase_no_words_any_caseType[of "JString (js ''   '')" "js ''not-a-real-case''"]
      convertCase_no_words_any_caseType[of JNull "js ''not-a-real-case''"]
      convertCase_no_words_any_caseType[of "JString (js ''!@#$%^&*()'')" "js ''camel''"]
    by (simp only: 1 2 3 simp_thms)
qed

text \<open>
  C3. For every string \<open>s\<close>, every word of \<open>extractWords(s)\<close> is non-empty and holds
  ASCII letters and digits only, and the words stand in \<open>s\<close> from left to right in the
  order of the result: \<open>s\<close> is a run of separators, the first word, a run of separators,
  the second word, and so on, where a run of separators holds no letter or digit and may be
  empty. So the words, one after the other, are the letters and digits of \<open>s\<close>.
\<close>

theorem extractWords_tokens:
  "(\<forall>w \<in> set (extractWords (JString s)). w \<noteq> [] \<and> (\<forall>c \<in> set w. is_alnum c)) \<and>
   (\<exists>gaps. length gaps = Suc (length (extractWords (JString s))) \<and>
           list_all separators gaps \<and> s = weave gaps (extractWords (JString s))) \<and>
   concat (extractWords (JString s)) = filter is_alnum s"
proof -
  have "w \<noteq> [] \<and> (\<forall>c \<in> set w. is_alnum c)" if "w \<in> set (extractWords (JString s))" for w
    using extractWords_word(1,2)[OF that] by (simp add: list_all_iff)
  moreover have "\<exists>gaps. length gaps = Suc (length (extractWords (JString s))) \<and>
           list_all separators gaps \<and> s = weave gaps (extractWords (JString s))"
    using scan_weave[of "[]" s] by (auto simp: extractWords_scan)
  ultimately show ?thesis
    by (simp add: extractWords_concat)
qed

theorem extractWords_tokens_witness:
  "(\<exists>gaps. length gaps = 4 \<and> list_all separators gaps \<and>
      js ''_my-HTTPServer'' = weave gaps [js ''my'', js ''HTTP'', js ''Server'']) \<and>
   concat [js ''my'', js ''HTTP'', js ''Server''] = filter is_alnum (js ''_my-HTTPServer'')"
proof -
  have e: "extractWords (JString (js ''_my-HTTPServer'')) = [js ''my'', js ''HTTP'', js ''Server'']"
    by code_simp
  show ?thesis
    using extractWords_tokens[of "js ''_my-HTTPServer''"] unfolding e
    by (simp add: eval_nat_numeral)
qed

text \<open>
  C4. For every string \<open>s\<close> and every case type among \<open>lowercase\<close>, \<open>uppercase\<close>,
  \<open>sentence\<close>, \<open>title\<close>, \<open>snake\<close>, \<open>kebab\<close> and \<open>dot\<close>, the words extracted from
  \<open>convertCase(s, caseType)\<close> are the words extracted from \<open>s\<close> up to letter case: as
  many words, in the same order, equal once both are lower-cased.
\<close>

theorem reextract_same_words:
  assumes "caseType \<in> set (map js [''lowercase'', ''uppercase'', ''sentence'', ''title'',
                                     ''snake'', ''kebab'', ''dot''])"
  shows "\<exists>r. convertCase (JString s) caseType = Inr r \<and>
             length (extractWords (JString r)) = length (extractWords (JString s)) \<and>
             map toLowerCase (extractWords (JString r)) = map toLowerCase (extractWords (JString s))"
proof -
  have "caseType \<in> set (map js [''lowercase'', ''uppercase'', ''sentence'', ''title'',
                                   ''snake'', ''kebab'', ''dot'', ''constant''])"
    using assms by auto
  then obtain r where r: "convertCase (JString s) caseType = Inr r"
    "map toLowerCase (extractWords (JString r)) = map toLowerCase (extractWords (JString s))"
    using reextract_convertCase[of caseType "JString s"] by blast
  have "length (extractWords (JString r)) = length (extractWords (JString s))"
    using r(2) by (rule map_eq_imp_length_eq)
  with r show ?thesis
    by blast
qed

theorem reextract_same_words_witness:
  "\<exists>r. convertCase (JString (js ''XMLHttpRequest v2'')) (js ''title'') = Inr r \<and>
       length (extractWords (JString r)) = 5 \<and>
       map toLowerCase (extractWords (JString r)) =
         [js ''xml'', js ''http'', js ''request'', js ''v'', js ''2'']"
proof -
  have h: "js ''title'' \<in> set (map js [''lowercase'', ''uppercase'', ''sentence'', ''title'',
                                     ''snake'', ''kebab'', ''dot''])"
    by simp
  have e: "extractWords (JString (js ''XMLHttpRequest v2'')) =
      [js ''XML'', js ''Http'', js ''Request'', js ''v'', js ''2'']"
    by code_simp
  have l: "map toLowerCase [js ''XML'', js ''Http'', js ''Request'', js ''v'', js ''2''] =
      [js ''xml'', js ''http'', js ''request'', js ''v'', js ''2'']"
    by code_simp
  show ?thesis
    using reextract_same_words[OF h, of "js ''XMLHttpRequest v2''"] unfolding e l
    by (simp add: eval_nat_numeral)
qed

text \<open>
  C5. For every string \<open>s\<close> and every case type among \<open>snake\<close>, \<open>kebab\<close>, \<open>dot\<close> and
  \<open>constant\<close>, as many words are extracted from \<open>convertCase(s, caseType)\<close> as from \<open>s\<close>.
\<close>

theorem reextract_same_count:
  assumes "caseType \<in> set (map js [''snake'', ''kebab'', ''dot'', ''constant''])"
  shows "\<exists>r. convertCase (JString s) caseType = Inr r \<and>
             length (extractWords (JString r)) = length (extractWords (JString s))"
proof -
  have "caseType \<in> set (map js [''lowercase'', ''uppercase'', ''sentence'', ''title'',
                                   ''snake'', ''kebab'', ''dot'', ''constant''])"
    using assms by auto
  then obtain r where r: "convertCase (JString s) caseType = Inr r"
    "map toLowerCase (extractWords (JString r)) = map toLowerCase (extractWords (JString s))"
    using reextract_convertCase[of caseType "JString s"] by blast
  have "length (extractWords (JString r)) = length (extractWords (JString s))"
    using r(2) by (rule map_eq_imp_length_eq)
  with r show ?thesis
    by blast
qed

theorem reextract_same_count_witness:
  "\<exists>r. convertCase (JString (js ''version1ToVersion2'')) (js ''constant'') = Inr r \<and>
       length (extractWords (JString r)) = 5"
proof -
  have h: "js ''constant'' \<in> set (map js [''snake'', ''kebab'', ''dot'', ''constant''])"
    by simp
  have e: "length (extractWords (JString (js ''version1ToVersion2''))) = 5"
    by code_simp
  show ?thesis
    using reextract_same_count[OF h, of "js ''version1ToVersion2''"] unfolding e
    by simp
qed

text \<open>
  C6. \<open>convertCase("HTTPRequest", "camel")\<close> is \<open>"httpRequest"\<close> and
  \<open>convertCase("XMLHttpRequest", "pascal")\<close> is \<open>"XmlHttpRequest"\<close>. In general, an
  acronym (one or more upper-case letters) followed by capitalized words is split before
  the upper-case letter that starts the first of these words, and then before each of the
  others; and \<open>capitalize\<close> turns a word of letters, whatever their case, into an
  upper-case letter followed by lower-case letters, the same letters up to case, and
  leaves a word of digits as it is.
\<close>

theorem convertCase_acronyms:
  "convertCase (JString (js ''HTTPRequest'')) (js ''camel'') = Inr (js ''httpRequest'') \<and>
   convertCase (JString (js ''XMLHttpRequest'')) (js ''pascal'') = Inr (js ''XmlHttpRequest'') \<and>
   extractWords (JString (js ''HTTPRequest'')) = [js ''HTTP'', js ''Request''] \<and>
   extractWords (JString (js ''XMLHttpRequest'')) = [js ''XML'', js ''Http'', js ''Request''] \<and>
   (u \<noteq> [] \<and> list_all is_upper u \<and> ws \<noteq> [] \<and> list_all capitalized ws \<longrightarrow>
      extractWords (JString (u @ concat ws)) = u # ws \<and>
      convertCase (JString (u @ concat ws)) (js ''camel'') = Inr (toLowerCase u @ concat ws) \<and>
      convertCase (JString (u @ concat ws)) (js ''pascal'') = Inr (capitalize u @ concat ws)) \<and>
   (is_alpha c \<and> list_all is_alpha cs \<longrightarrow>
      is_upper (hd (capitalize (c # cs))) \<and>
      list_all is_lower (tl (capitalize (c # cs))) \<and>
      length (capitalize (c # cs)) = Suc (length cs) \<and>
      toLowerCase (capitalize (c # cs)) = toLowerCase (c # cs) \<and>
      capitalize (c # cs) = upper_unit c # map lower_unit cs) \<and>
   (list_all is_digit w \<longrightarrow> capitalize w = w) \<and>
   capitalize (js ''HTTP'') = js ''Http'' \<and>
   capitalize (js ''hTTP'') = js ''Http'' \<and>
   capitalize (js ''http'') = js ''Http''"
proof -
  have "convertCase (JString (js ''HTTPRequest'')) (js ''camel'') = Inr (js ''httpRequest'')"
    by code_simp
  moreover have "convertCase (JString (js ''XMLHttpRequest'')) (js ''pascal'') = Inr (js ''XmlHttpRequest'')"
    by code_simp
  moreover have "extractWords (JString (js ''HTTPRequest'')) = [js ''HTTP'', js ''Request'']"
    by code_simp
  moreover have "extractWords (JString (js ''XMLHttpRequest'')) = [js ''XML'', js ''Http'', js ''Request'']"
    by code_simp
  moreover have "capitalize (js ''HTTP'') = js ''Http''" "capitalize (js ''hTTP'') = js ''Http''"
    "capitalize (js ''http'') = js ''Http''"
    by code_simp+
  moreover have "extractWords (JString (u @ concat ws)) = u # ws \<and>
      convertCase (JString (u @ concat ws)) (js ''camel'') = Inr (toLowerCase u @ concat ws) \<and>
      convertCase (JString (u @ concat ws)) (js ''pascal'') = Inr (capitalize u @ concat ws)"
    if "u \<noteq> []" "list_all is_upper u" "ws \<noteq> []" "list_all capitalized ws"
    using extractWords_acronym[OF that] convertCase_after_acronym[OF that] by simp
  moreover have "is_upper (hd (capitalize (c # cs))) \<and>
      list_all is_lower (tl (capitalize (c # cs))) \<and>
      length (capitalize (c # cs)) = Suc (length cs) \<and>
      toLowerCase (capitalize (c # cs)) = toLowerCase (c # cs) \<and>
      capitalize (c # cs) = upper_unit c # map lower_unit cs"
    if "is_alpha c" "list_all is_alpha cs"
    using capitalize_letters[OF that] by (simp add: capitalize_Cons)
  moreover have "capitalize w = w" if "list_all is_digit w"
    using that by (rule capitalize_digit)
  ultimately show ?thesis
    by blast
qed

theorem convertCase_acronyms_witness:
  "extractWords (JString (js ''XML'' @ concat [js ''Http'', js ''Request''])) =
     [js ''XML'', js ''Http'', js ''Request''] \<and>
   convertCase (JString (js ''XML'' @ concat [js ''Http'', js ''Request''])) (js ''pascal'') =
     Inr (js ''XmlHttpRequest'') \<and>
   convertCase (JString (js ''XML'' @ concat [js ''Http'', js ''Request''])) (js ''camel'') =
     Inr (js ''xmlHttpRequest'') \<and>
   is_upper (hd (capitalize (js ''hTTP''))) \<and>
   list_all is_lower (tl (capitalize (js ''hTTP''))) \<and>
   capitalize (js ''42'') = js ''42''"
proof -
  have u: "js ''XML'' \<noteq> []" "list_all is_upper (js ''XML'')"
    by code_simp+
  have ws: "[js ''Http'', js ''Request''] \<noteq> []" "list_all capitalized [js ''Http'', js ''Request'']"
    by code_simp+
  have c: "is_alpha (of_char CHR ''h'')" "list_all is_alpha (js ''TTP'')"
    by code_simp+
  have w: "list_all is_digit (js ''42'')"
    by code_simp
  have e: "js ''hTTP'' = of_char CHR ''h'' # js ''TTP''"
    by (simp add: js_def)
  have r: "capitalize (js ''XML'') @ concat [js ''Http'', js ''Request''] = js ''XmlHttpRequest''"
    "toLowerCase (js ''XML'') @ concat [js ''Http'', js ''Request''] = js ''xmlHttpRequest''"
    by code_simp+
  note inst = convertCase_acronyms[where u = "js ''XML''" and ws = "[js ''Http'', js ''Request'']"
        and c = "of_char CHR ''h''" and cs = "js ''TTP''" and w = "js ''42''"]
  from inst u ws have split:
    "extractWords (JString (js ''XML'' @ concat [js ''Http'', js ''Request''])) =
       [js ''XML'', js ''Http'', js ''Request'']"
    "convertCase (JString (js ''XML'' @ concat [js ''Http'', js ''Request''])) (js ''pascal'') =
       Inr (capitalize (js ''XML'') @ concat [js ''Http'', js ''Request''])"
    "convertCase (JString (js ''XML'' @ concat [js ''Http'', js ''Request''])) (js ''camel'') =
       Inr (toLowerCase (js ''XML'') @ concat [js ''Http'', js ''Request''])"
    by blast+
  from inst c have letters:
    "is_upper (hd (capitalize (of_char CHR ''h'' # js ''TTP'')))"
    "list_all is_lower (tl (capitalize (of_char CHR ''h'' # js ''TTP'')))"
    by blast+
  from inst w have digits: "capitalize (js ''42'') = js ''42''"
    by blast
  show ?thesis
    using split(1) split(2,3)[unfolded r] letters[folded e] digits
    by (intro conjI)
qed

text \<open>
  C7. When exactly one word is extracted from the input, \<open>convertCase(input, "camel")\<close>
  is that word with every code unit lower-cased: no upper-case letter is left, the first
  one included.
\<close>

theorem camel_single_word:
  assumes "extractWords input = [w]"
  shows "convertCase input (js ''camel'') = Inr (toLowerCase w) \<and>
         toLowerCase w = map lower_unit w \<and>
         list_all (\<lambda>c. \<not> is_upper c) (toLowerCase w)"
proof -
  have "convertCase input (js ''camel'') = Inr (toLowerCase w)"
    using convertCase_words(7)[OF assms] by simp
  moreover have "\<not> is_upper (lower_unit c)" for c
    using upper_plus[of c] by (auto simp: lower_unit_def class_disjoint)
  ultimately show ?thesis
    by (simp add: toLowerCase_def list_all_iff)
qed

theorem camel_single_word_witness:
  "convertCase (JString (js ''HELLO'')) (js ''camel'') = Inr (js ''hello'')"
proof -
  have h: "extractWords (JString (js ''HELLO'')) = [js ''HELLO'']"
    by code_simp
  have l: "toLowerCase (js ''HELLO'') = js ''hello''"
    by code_simp
  show ?thesis
    using camel_single_word[OF h] by (simp add: l)
qed

text \<open>
  C8. For every string input and each of the ten case types, \<open>convertCase\<close> returns a
  string, and every code unit of it is an ASCII letter, an ASCII digit or the joiner of the
  case type: the space for \<open>lowercase\<close>, \<open>uppercase\<close>, \<open>sentence\<close> and \<open>title\<close>, the
  underscore for \<open>snake\<close> and \<open>constant\<close>, the hyphen for \<open>kebab\<close>, the dot for
  \<open>dot\<close>, and nothing else for \<open>camel\<close> and \<open>pascal\<close>.
\<close>

theorem convertCase_charset:
  assumes "caseType \<in> set CaseType"
  shows "\<exists>r. convertCase (JString s) caseType = Inr r \<and>
    (\<forall>c \<in> set r. is_alpha c \<or> is_digit c \<or>
       (caseType \<in> set (map js [''lowercase'', ''uppercase'', ''sentence'', ''title'']) \<and>
          c \<in> set (js '' '')) \<or>
       (caseType \<in> set (map js [''snake'', ''constant'']) \<and> c \<in> set (js ''_'')) \<or>
       (caseType = js ''kebab'' \<and> c \<in> set (js ''-'')) \<or>
       (caseType = js ''dot'' \<and> c \<in> set (js ''.'')))"
proof -
  define J where "J c \<longleftrightarrow>
       (caseType \<in> set (map js [''lowercase'', ''uppercase'', ''sentence'', ''title'']) \<and>
          c \<in> set (js '' '')) \<or>
       (caseType \<in> set (map js [''snake'', ''constant'']) \<and> c \<in> set (js ''_'')) \<or>
       (caseType = js ''kebab'' \<and> c \<in> set (js ''-'')) \<or>
       (caseType = js ''dot'' \<and> c \<in> set (js ''.''))" for c
  have an: "is_alnum c \<longleftrightarrow> is_alpha c \<or> is_digit c" for c
    by (auto simp: is_alnum_def is_alpha_def)
  have fin: "\<exists>r. convertCase (JString s) caseType = Inr r \<and>
      (\<forall>c \<in> set r. is_alpha c \<or> is_digit c \<or> J c)"
    if "convertCase (JString s) caseType = Inr R" "\<forall>c \<in> set R. is_alnum c \<or> c \<in> set sep"
      "\<forall>c \<in> set sep. J c" for R sep
    using that by (auto simp: an)
  have "\<exists>r. convertCase (JString s) caseType = Inr r \<and>
      (\<forall>c \<in> set r. is_alpha c \<or> is_digit c \<or> J c)"
  proof (cases "extractWords (JString s) = []")
    case True
    then show ?thesis
      by (simp add: convertCase_no_words)
  next
    case False
    note cc = convertCase_words[OF refl False]
    note jw = joined_words_chars[where v = "JString s"]
    consider "caseType = js ''lowercase''" | "caseType = js ''uppercase''"
      | "caseType = js ''sentence''" | "caseType = js ''title''" | "caseType = js ''snake''"
      | "caseType = js ''kebab''" | "caseType = js ''camel''" | "caseType = js ''pascal''"
      | "caseType = js ''dot''" | "caseType = js ''constant''"
      using assms unfolding CaseType_def
      by (simp only: list.map set_simps insert_iff empty_iff) blast
    then show ?thesis
    proof cases
      case 1
      show ?thesis
      proof (rule fin)
        show "convertCase (JString s) caseType = Inr (join (js '' '') (map toLowerCase (extractWords (JString s))))"
          by (simp add: 1 cc(1))
        show "\<forall>c \<in> set (join (js '' '') (map toLowerCase (extractWords (JString s)))). is_alnum c \<or> c \<in> set (js '' '')"
          by (rule jw) simp
        show "\<forall>c \<in> set (js '' ''). J c"
          by (simp add: J_def 1)
      qed
    next
      case 2
      show ?thesis
      proof (rule fin)
        show "convertCase (JString s) caseType = Inr (join (js '' '') (map toUpperCase (extractWords (JString s))))"
          by (simp add: 2 cc(2))
        show "\<forall>c \<in> set (join (js '' '') (map toUpperCase (extractWords (JString s)))). is_alnum c \<or> c \<in> set (js '' '')"
          by (rule jw) simp
        show "\<forall>c \<in> set (js '' ''). J c"
          by (simp add: J_def 2)
      qed
    next
      case 3
      show ?thesis
      proof (rule fin)
        show "convertCase (JString s) caseType = Inr (capitalize (join (js '' '') (map toLowerCase (extractWords (JString s)))))"
          by (simp add: 3 cc(3))
        show "\<forall>c \<in> set (capitalize (join (js '' '') (map toLowerCase (extractWords (JString s))))).
            is_alnum c \<or> c \<in> set (js '' '')"
          using jw[of toLowerCase "js '' ''"]
          by (intro capitalize_chars)
            (auto simp: joiners lower_unit_joiner lower_unit_alnum upper_unit_alnum)
        show "\<forall>c \<in> set (js '' ''). J c"
          by (simp add: J_def 3)
      qed
    next
      case 4
      show ?thesis
      proof (rule fin)
        show "convertCase (JString s) caseType = Inr (join (js '' '') (map capitalize (extractWords (JString s))))"
          by (simp add: 4 cc(4))
        show "\<forall>c \<in> set (join (js '' '') (map capitalize (extractWords (JString s)))). is_alnum c \<or> c \<in> set (js '' '')"
          by (rule jw) simp
        show "\<forall>c \<in> set (js '' ''). J c"
          by (simp add: J_def 4)
      qed
    next
      case 5
      show ?thesis
      proof (rule fin)
        show "convertCase (JString s) caseType = Inr (join (js ''_'') (map toLowerCase (extractWords (JString s))))"
          by (simp add: 5 cc(5))
        show "\<forall>c \<in> set (join (js ''_'') (map toLowerCase (extractWords (JString s)))). is_alnum c \<or> c \<in> set (js ''_'')"
          by (rule jw) simp
        show "\<forall>c \<in> set (js ''_''). J c"
          by (simp add: J_def 5)
      qed
    next
      case 6
      show ?thesis
      proof (rule fin)
        show "convertCase (JString s) caseType = Inr (join (js ''-'') (map toLowerCase (extractWords (JString s))))"
          by (simp add: 6 cc(6))
        show "\<forall>c \<in> set (join (js ''-'') (map toLowerCase (extractWords (JString s)))). is_alnum c \<or> c \<in> set (js ''-'')"
          by (rule jw) simp
        show "\<forall>c \<in> set (js ''-''). J c"
          by (simp add: J_def 6)
      qed
    next
      case 7
      show ?thesis
      proof (rule fin)
        show "convertCase (JString s) caseType =
          Inr (if length (extractWords (JString s)) = 1 then toLowerCase (extractWords (JString s) ! 0)
               else toLowerCase (extractWords (JString s) ! 0) @
                    join [] (map capitalize (drop 1 (extractWords (JString s)))))"
          by (simp only: 7 cc(7))
        show "\<forall>c \<in> set (if length (extractWords (JString s)) = 1 then toLowerCase (extractWords (JString s) ! 0)
               else toLowerCase (extractWords (JString s) ! 0) @
                    join [] (map capitalize (drop 1 (extractWords (JString s))))).
            is_alnum c \<or> c \<in> set []"
          using camel_chars[OF refl False] by auto
        show "\<forall>c \<in> set []. J c"
          by simp
      qed
    next
      case 8
      show ?thesis
      proof (rule fin)
        show "convertCase (JString s) caseType = Inr (join [] (map capitalize (extractWords (JString s))))"
          by (simp add: 8 cc(8))
        show "\<forall>c \<in> set (join [] (map capitalize (extractWords (JString s)))). is_alnum c \<or> c \<in> set []"
          by (rule jw) simp
        show "\<forall>c \<in> set []. J c"
          by simp
      qed
    next
      case 9
      show ?thesis
      proof (rule fin)
        show "convertCase (JString s) caseType = Inr (join (js ''.'') (map toLowerCase (extractWords (JString s))))"
          by (simp add: 9 cc(9))
        show "\<forall>c \<in> set (join (js ''.'') (map toLowerCase (extractWords (JString s)))). is_alnum c \<or> c \<in> set (js ''.'')"
          by (rule jw) simp
        show "\<forall>c \<in> set (js ''.''). J c"
          by (simp add: J_def 9)
      qed
    next
      case 10
      show ?thesis
      proof (rule fin)
        show "convertCase (JString s) caseType = Inr (join (js ''_'') (map toUpperCase (extractWords (JString s))))"
          by (simp add: 10 cc(10))
        show "\<forall>c \<in> set (join (js ''_'') (map toUpperCase (extractWords (JString s)))). is_alnum c \<or> c \<in> set (js ''_'')"
          by (rule jw) simp
        show "\<forall>c \<in> set (js ''_''). J c"
          by (simp add: J_def 10)
      qed
    qed
  qed
  then show ?thesis
    unfolding J_def .
qed

theorem convertCase_charset_witness:
  "\<exists>r. convertCase (JString (js ''helloWorld'')) (js ''kebab'') = Inr r \<and>
       list_all (\<lambda>c. is_alpha c \<or> is_digit c \<or> c \<in> set (js ''-'')) r"
proof -
  have h: "js ''kebab'' \<in> set CaseType"
    by (simp add: CaseType_def)
  have n: "js ''kebab'' \<notin> set (map js [''lowercase'', ''uppercase'', ''sentence'', ''title''])"
    "js ''kebab'' \<notin> set (map js [''snake'', ''constant''])" "js ''kebab'' \<noteq> js ''dot''"
    by (simp_all add: js_def)
  show ?thesis
    using convertCase_charset[OF h, of "js ''helloWorld''"]
    by (simp only: n list_all_iff simp_thms)
qed

text \<open>
  C9. Each of the ten functions of \<open>toCase\<close> returns what \<open>convertCase\<close> returns on the
  same input with the case type of that function.
\<close>

theorem toCase_partial_application:
  "lower toCase input = convertCase input (js ''lowercase'') \<and>
   upper toCase input = convertCase input (js ''uppercase'') \<and>
   sentence toCase input = convertCase input (js ''sentence'') \<and>
   title toCase input = convertCase input (js ''title'') \<and>
   snake toCase input = convertCase input (js ''snake'') \<and>
   kebab toCase input = convertCase input (js ''kebab'') \<and>
   camel toCase input = convertCase input (js ''camel'') \<and>
   pascal toCase input = convertCase input (js ''pascal'') \<and>
   dot toCase input = convertCase input (js ''dot'') \<and>
   constant' toCase input = convertCase input (js ''constant'')"
  by (simp add: toCase_def)

theorem toCase_partial_application_witness:
  "snake toCase (JString (js ''helloWorld'')) = Inr (js ''hello_world'')"
proof -
  have "convertCase (JString (js ''helloWorld'')) (js ''snake'') = Inr (js ''hello_world'')"
    by code_simp
  then show ?thesis
    using toCase_partial_application[of "JString (js ''helloWorld'')"] by simp
qed

text \<open>
  C10. Every word that \<open>extractWords\<close> returns is made of ASCII letters only or of ASCII
  digits only, never of both.
\<close>

theorem extractWords_homogeneous:
  assumes "w \<in> set (extractWords input)"
  shows "(list_all is_alpha w \<and> \<not> list_ex is_digit w) \<or>
         (list_all is_digit w \<and> \<not> list_ex is_alpha w)"
proof -
  have "homogeneous w"
    using assms by (rule extractWords_word(3))
  moreover have "\<not> (is_alpha c \<and> is_digit c)" for c
    by (auto simp: is_alpha_def class_disjoint)
  ultimately show ?thesis
    by (auto simp: homogeneous_def list_all_iff list_ex_iff)
qed

theorem extractWords_homogeneous_witness:
  "list_all is_alpha (js ''version'') \<and> \<not> list_ex is_digit (js ''version'') \<and>
   list_all is_digit (js ''12'') \<and> \<not> list_ex is_alpha (js ''12'')"
proof -
  have e: "extractWords (JString (js ''version12'')) = [js ''version'', js ''12'']"
    by code_simp
  have 1: "\<not> list_all is_digit (js ''version'')" "\<not> list_all is_alpha (js ''12'')"
    by code_simp+
  show ?thesis
    using extractWords_homogeneous[of "js ''version''" "JString (js ''version12'')"]
      extractWords_homogeneous[of "js ''12''" "JString (js ''version12'')"] 1
    by (simp add: e)
qed

end
